theory Spec2Isabelle
  imports Main
begin

section \<open>Values, exceptions and callables\<close>

text \<open>
  The values that callbacks receive and return. JavaScript numbers are modelled as integers
  (priorities and the examples of the documentation are integers).
\<close>

datatype val = Undefined | Null | Bool bool | Num int | Str string

text \<open>
  An exception is a value of the left summand: \<open>TypeError\<close> is what the language raises when a
  non-function is called or a property of \<open>null\<close> is read, \<open>Thrown\<close> is what a callback throws.
  A throwing operation still returns the state it has reached: mutations done before the throw
  persist.
\<close>

datatype error = TypeError string | Thrown val

type_synonym 'a result = "error + 'a"

text \<open>
  What a \<open>#callback\<close> slot can hold: a function or any other value. A function is modelled
  by what it returns or throws for its arguments. This covers the callbacks that do not call
  into the module while a pass is running; a callback that cancels or registers a handler,
  sets a priority or dispatches from inside a handler is outside this model, and the
  statements below that describe which handlers a pass calls are stated for the callbacks
  inside it.
\<close>

datatype callable = Function "val list \<Rightarrow> val result" | NonFunction val

text \<open>\<open>const doNothing = () => {}\<close>\<close>

definition doNothing :: "val list \<Rightarrow> val" where
  "doNothing xs = Undefined"

text \<open>The call expression \<open>f(...xs)\<close>: calling a value that is not a function throws.\<close>

fun call :: "callable \<Rightarrow> val list \<Rightarrow> val result" where
  "call (Function f) xs = f xs"
| "call (NonFunction v) xs = Inl (TypeError ''is not a function'')"

section \<open>Objects and the store\<close>

text \<open>
  Handlers and handler lists are objects that are shared by reference (a handler is held by its
  list's array and by the caller who registered it, and points back to its list), so both live
  in a store indexed by addresses. \<open>list_ref\<close> is the field \<open>#list\<close>.
\<close>

record TriggerHandler =
  once :: bool
  list_ref :: nat
  args :: "val list"
  callback :: callable
  priority :: int
  cancelled :: bool

record 'k TriggerHandlerList =
  handlers :: "nat list"
  usesPriorities :: bool
  needsPriorityUpdate :: bool
  needsPurge :: bool
  trigger :: 'k

text \<open>
  The module state: the two stores with their allocation counters, the two module-level maps
  \<open>handlers\<close> and \<open>modifiers\<close>, and \<open>calls\<close>, a trace that records every evaluation of a call
  expression \<open>this.#callback(...)\<close> with the handler's address and the actual arguments.
\<close>

record 'k state =
  handler_heap :: "nat \<Rightarrow> TriggerHandler"
  list_heap :: "nat \<Rightarrow> 'k TriggerHandlerList"
  handler_count :: nat
  list_count :: nat
  handlers_map :: "'k \<rightharpoonup> nat"
  modifiers_map :: "'k \<rightharpoonup> nat"
  calls :: "(nat \<times> val list) list"

definition init :: "'k state" where
  "init = \<lparr>handler_heap = (\<lambda>_. undefined), list_heap = (\<lambda>_. undefined),
           handler_count = 0, list_count = 0,
           handlers_map = Map.empty, modifiers_map = Map.empty, calls = []\<rparr>"

section \<open>TriggerHandlerList: the dirty bits\<close>

definition queuePriorityUpdate :: "nat \<Rightarrow> 'k state \<Rightarrow> 'k state" where
  "queuePriorityUpdate l s =
     s\<lparr>list_heap := (list_heap s)
          (l := (list_heap s l)\<lparr>needsPriorityUpdate := True, usesPriorities := True\<rparr>)\<rparr>"

definition queuePurge :: "nat \<Rightarrow> 'k state \<Rightarrow> 'k state" where
  "queuePurge l s =
     s\<lparr>list_heap := (list_heap s)(l := (list_heap s l)\<lparr>needsPurge := True\<rparr>)\<rparr>"

section \<open>TriggerHandler\<close>

text \<open>
  The constructor, after the field initialisers. The initialiser \<open>#callback = doNothing()\<close>
  stores the result of calling \<open>doNothing\<close>, and the parameter default
  \<open>callback = this.#callback\<close> replaces an omitted (undefined) argument by that field.
\<close>

definition new_TriggerHandler :: "nat \<Rightarrow> callable \<Rightarrow> val list \<Rightarrow> TriggerHandler" where
  "new_TriggerHandler l cb as =
     \<lparr>once = False, list_ref = l, args = as,
      callback = (case cb of NonFunction Undefined \<Rightarrow> NonFunction (doNothing []) | _ \<Rightarrow> cb),
      priority = 0, cancelled = False\<rparr>"

definition cancel :: "nat \<Rightarrow> 'k state \<Rightarrow> 'k state" where
  "cancel h s =
     (let s1 = s\<lparr>handler_heap := (handler_heap s)(h := (handler_heap s h)\<lparr>cancelled := True\<rparr>)\<rparr>
      in queuePurge (list_ref (handler_heap s1 h)) s1)"

definition setPriority :: "nat \<Rightarrow> int \<Rightarrow> 'k state \<Rightarrow> 'k state" where
  "setPriority h v s =
     (let s1 = s\<lparr>handler_heap := (handler_heap s)(h := (handler_heap s h)\<lparr>priority := v\<rparr>)\<rparr>
      in queuePriorityUpdate (list_ref (handler_heap s1 h)) s1)"

definition setOnce :: "nat \<Rightarrow> bool \<Rightarrow> 'k state \<Rightarrow> 'k state" where
  "setOnce h v s = s\<lparr>handler_heap := (handler_heap s)(h := (handler_heap s h)\<lparr>once := v\<rparr>)\<rparr>"

definition TriggerHandler_execute :: "nat \<Rightarrow> val list \<Rightarrow> 'k state \<Rightarrow> val result \<times> 'k state" where
  "TriggerHandler_execute h as s =
     (let s1 = (if once (handler_heap s h) then cancel h s else s);
          actual = args (handler_heap s1 h) @ as
      in (call (callback (handler_heap s1 h)) actual, s1\<lparr>calls := calls s1 @ [(h, actual)]\<rparr>))"

definition TriggerHandler_modify ::
  "nat \<Rightarrow> val \<Rightarrow> val list \<Rightarrow> 'k state \<Rightarrow> val result \<times> 'k state" where
  "TriggerHandler_modify h input as s =
     (let s1 = (if once (handler_heap s h) then cancel h s else s);
          actual = input # args (handler_heap s1 h) @ as
      in (call (callback (handler_heap s1 h)) actual, s1\<lparr>calls := calls s1 @ [(h, actual)]\<rparr>))"

section \<open>TriggerHandlerList\<close>

definition new_TriggerHandlerList :: "'k \<Rightarrow> 'k TriggerHandlerList" where
  "new_TriggerHandlerList t =
     \<lparr>handlers = [], usesPriorities = False, needsPriorityUpdate = False, needsPurge = False,
      trigger = t\<rparr>"

definition addHandler :: "nat \<Rightarrow> callable \<Rightarrow> val list \<Rightarrow> 'k state \<Rightarrow> nat \<times> 'k state" where
  "addHandler l cb as s =
     (let h = handler_count s;
          s1 = s\<lparr>handler_heap := (handler_heap s)(h := new_TriggerHandler l cb as),
                 handler_count := Suc h\<rparr>;
          s2 = s1\<lparr>list_heap := (list_heap s1)
                  (l := (list_heap s1 l)\<lparr>handlers := handlers (list_heap s1 l) @ [h]\<rparr>)\<rparr>;
          s3 = (if usesPriorities (list_heap s2 l) then queuePriorityUpdate l s2 else s2)
      in (h, s3))"

definition purge :: "nat \<Rightarrow> 'k state \<Rightarrow> 'k state" where
  "purge l s =
     (if \<not> needsPurge (list_heap s l) then s
      else s\<lparr>list_heap := (list_heap s)
             (l := (list_heap s l)
                \<lparr>handlers := filter (\<lambda>x. \<not> cancelled (handler_heap s x)) (handlers (list_heap s l)),
                 needsPurge := False\<rparr>)\<rparr>)"

text \<open>
  \<open>Array.prototype.sort\<close> is stable, and the comparator \<open>x.getPriority() - y.getPriority()\<close>
  orders by ascending priority: the stable insertion sort \<open>sort_key\<close> on the priorities.
\<close>

definition updatePriorities :: "nat \<Rightarrow> 'k state \<Rightarrow> 'k state" where
  "updatePriorities l s =
     (if \<not> needsPriorityUpdate (list_heap s l) then s
      else let s1 = purge l s
           in s1\<lparr>list_heap := (list_heap s1)
                (l := (list_heap s1 l)
                   \<lparr>handlers := sort_key (\<lambda>x. priority (handler_heap s1 x)) (handlers (list_heap s1 l)),
                    needsPriorityUpdate := False\<rparr>)\<rparr>)"

text \<open>
  The three \<open>for (const handler of this.#handlers)\<close> loops. A callback cannot touch the array
  in this model, so the loop runs over the array as it stands when the loop starts; the
  cancelled flag is read from the store at each step, and a throw leaves the loop.
\<close>

fun execute_loop :: "nat list \<Rightarrow> val list \<Rightarrow> 'k state \<Rightarrow> unit result \<times> 'k state" where
  "execute_loop [] as s = (Inr (), s)"
| "execute_loop (h # hs) as s =
     (if cancelled (handler_heap s h) then execute_loop hs as s
      else case TriggerHandler_execute h as s of
             (Inl e, s') \<Rightarrow> (Inl e, s')
           | (Inr v, s') \<Rightarrow> execute_loop hs as s')"

fun poll_loop :: "nat list \<Rightarrow> val list \<Rightarrow> val list \<Rightarrow> 'k state \<Rightarrow> val list result \<times> 'k state" where
  "poll_loop [] as res s = (Inr res, s)"
| "poll_loop (h # hs) as res s =
     (if cancelled (handler_heap s h) then poll_loop hs as res s
      else case TriggerHandler_execute h as s of
             (Inl e, s') \<Rightarrow> (Inl e, s')
           | (Inr v, s') \<Rightarrow> poll_loop hs as (res @ [v]) s')"

text \<open>The loop of \<open>modify\<close> passes \<open>input\<close>, not \<open>result\<close>, to every handler.\<close>

fun modify_loop :: "nat list \<Rightarrow> val \<Rightarrow> val list \<Rightarrow> val \<Rightarrow> 'k state \<Rightarrow> val result \<times> 'k state" where
  "modify_loop [] input as res s = (Inr res, s)"
| "modify_loop (h # hs) input as res s =
     (if cancelled (handler_heap s h) then modify_loop hs input as res s
      else case TriggerHandler_modify h input as s of
             (Inl e, s') \<Rightarrow> (Inl e, s')
           | (Inr v, s') \<Rightarrow> modify_loop hs input as v s')"

definition TriggerHandlerList_execute :: "nat \<Rightarrow> val list \<Rightarrow> 'k state \<Rightarrow> unit result \<times> 'k state" where
  "TriggerHandlerList_execute l as s =
     (let s1 = (if needsPriorityUpdate (list_heap s l) then updatePriorities l s else s)
      in execute_loop (handlers (list_heap s1 l)) as s1)"

definition TriggerHandlerList_poll :: "nat \<Rightarrow> val list \<Rightarrow> 'k state \<Rightarrow> val list result \<times> 'k state" where
  "TriggerHandlerList_poll l as s =
     (let s1 = updatePriorities l s
      in case poll_loop (handlers (list_heap s1 l)) as [] s1 of
           (Inl e, s2) \<Rightarrow> (Inl e, s2)
         | (Inr res, s2) \<Rightarrow> (Inr res, purge l s2))"

definition TriggerHandlerList_modify ::
  "nat \<Rightarrow> val \<Rightarrow> val list \<Rightarrow> 'k state \<Rightarrow> val result \<times> 'k state" where
  "TriggerHandlerList_modify l input as s =
     (let s1 = (if needsPriorityUpdate (list_heap s l) then updatePriorities l s else s)
      in modify_loop (handlers (list_heap s1 l)) input as input s1)"

text \<open>
  \<open>clear\<close> cancels every handler and then evaluates \<open>this.#handlers.clear()\<close>. An array has no
  property \<open>clear\<close>: the lookup gives \<open>undefined\<close>, and calling it throws.
\<close>

definition Array_clear :: callable where
  "Array_clear = NonFunction Undefined"

definition TriggerHandlerList_clear :: "nat \<Rightarrow> 'k state \<Rightarrow> unit result \<times> 'k state" where
  "TriggerHandlerList_clear l s =
     (let s1 = fold cancel (handlers (list_heap s l)) s
      in case call Array_clear [] of
           Inl e \<Rightarrow> (Inl e, s1)
         | Inr v \<Rightarrow> (Inr (), s1\<lparr>list_heap := (list_heap s1)(l := (list_heap s1 l)\<lparr>handlers := []\<rparr>)\<rparr>))"

section \<open>The registry and the Trigger object\<close>

datatype registry = Handlers | Modifiers

fun lists_of :: "registry \<Rightarrow> 'k state \<Rightarrow> ('k \<rightharpoonup> nat)" where
  "lists_of Handlers s = handlers_map s"
| "lists_of Modifiers s = modifiers_map s"

fun lists_update :: "registry \<Rightarrow> ('k \<rightharpoonup> nat) \<Rightarrow> 'k state \<Rightarrow> 'k state" where
  "lists_update Handlers m s = s\<lparr>handlers_map := m\<rparr>"
| "lists_update Modifiers m s = s\<lparr>modifiers_map := m\<rparr>"

definition getHandlerList :: "registry \<Rightarrow> 'k \<Rightarrow> bool \<Rightarrow> 'k state \<Rightarrow> nat option \<times> 'k state" where
  "getHandlerList r t create s =
     (case lists_of r s t of
        Some l \<Rightarrow> (Some l, s)
      | None \<Rightarrow>
          if \<not> create then (None, s)
          else let l = list_count s;
                   s1 = s\<lparr>list_heap := (list_heap s)(l := new_TriggerHandlerList t),
                          list_count := Suc l\<rparr>
               in (Some l, lists_update r ((lists_of r s1)(t \<mapsto> l)) s1))"

text \<open>
  With \<open>create = true\<close> \<open>getHandlerList\<close> always returns a list; the second branch is never
  taken.
\<close>

definition createHandler :: "registry \<Rightarrow> 'k \<Rightarrow> callable \<Rightarrow> val list \<Rightarrow> 'k state \<Rightarrow> nat \<times> 'k state" where
  "createHandler r t cb as s =
     (case getHandlerList r t True s of
        (Some l, s1) \<Rightarrow> addHandler l cb as s1
      | (None, s1) \<Rightarrow> (handler_count s1, s1))"

definition Trigger_execute :: "'k \<Rightarrow> val list \<Rightarrow> 'k state \<Rightarrow> unit result \<times> 'k state" where
  "Trigger_execute t as s =
     (case getHandlerList Handlers t False s of
        (None, s1) \<Rightarrow> (Inr (), s1)
      | (Some l, s1) \<Rightarrow> TriggerHandlerList_execute l as s1)"

definition Trigger_poll :: "'k \<Rightarrow> val list \<Rightarrow> 'k state \<Rightarrow> val list result \<times> 'k state" where
  "Trigger_poll t as s =
     (case getHandlerList Handlers t False s of
        (None, s1) \<Rightarrow> (Inr [], s1)
      | (Some l, s1) \<Rightarrow> TriggerHandlerList_poll l as s1)"

text \<open>\<open>?.modify(input, args) ?? input\<close>: a nullish result of the list is replaced by the input.\<close>

definition Trigger_modify :: "val \<Rightarrow> 'k \<Rightarrow> val list \<Rightarrow> 'k state \<Rightarrow> val result \<times> 'k state" where
  "Trigger_modify input t as s =
     (case getHandlerList Modifiers t False s of
        (None, s1) \<Rightarrow> (Inr input, s1)
      | (Some l, s1) \<Rightarrow>
          (case TriggerHandlerList_modify l input as s1 of
             (Inl e, s2) \<Rightarrow> (Inl e, s2)
           | (Inr v, s2) \<Rightarrow> (Inr (if v = Undefined \<or> v = Null then input else v), s2)))"

text \<open>The function \<open>Trigger\<close> itself.\<close>

definition Trigger :: "'k \<Rightarrow> val list \<Rightarrow> 'k state \<Rightarrow> unit result \<times> 'k state" where
  "Trigger t as s = Trigger_execute t as s"

definition Trigger_createHandler :: "'k \<Rightarrow> callable \<Rightarrow> val list \<Rightarrow> 'k state \<Rightarrow> nat \<times> 'k state" where
  "Trigger_createHandler t cb as s = createHandler Handlers t cb as s"

definition Trigger_createModifier :: "'k \<Rightarrow> callable \<Rightarrow> val list \<Rightarrow> 'k state \<Rightarrow> nat \<times> 'k state" where
  "Trigger_createModifier t cb as s = createHandler Modifiers t cb as s"

text \<open>
  \<open>clearTrigger\<close> calls \<open>.clear()\<close> on what \<open>getHandlerList\<close> returns, without a null check:
  reading a property of \<open>null\<close> throws.
\<close>

definition clearTrigger :: "'k \<Rightarrow> 'k state \<Rightarrow> unit result \<times> 'k state" where
  "clearTrigger t s =
     (case getHandlerList Handlers t False s of
        (None, s1) \<Rightarrow> (Inl (TypeError ''cannot read properties of null''), s1)
      | (Some l, s1) \<Rightarrow>
          (case TriggerHandlerList_clear l s1 of
             (Inl e, s2) \<Rightarrow> (Inl e, s2)
           | (Inr u, s2) \<Rightarrow>
               (let s3 = s2\<lparr>handlers_map := (handlers_map s2)(t := None)\<rparr>
                in case getHandlerList Modifiers t False s3 of
                     (None, s4) \<Rightarrow> (Inl (TypeError ''cannot read properties of null''), s4)
                   | (Some m, s4) \<Rightarrow>
                       (case TriggerHandlerList_clear m s4 of
                          (Inl e, s5) \<Rightarrow> (Inl e, s5)
                        | (Inr u, s5) \<Rightarrow>
                            (Inr (), s5\<lparr>modifiers_map := (modifiers_map s5)(t := None)\<rparr>)))))"

section \<open>Programs over the public interface\<close>

text \<open>
  What a client of the module can do: call the functions of \<open>Trigger\<close> and the three public
  methods of a handler it has received from a registration. A client holds only addresses that
  a registration has returned, so a method call on an address that was never allocated is not a
  step. An exception thrown by a call is caught by the client: the run goes on from the state
  the call has reached.
\<close>

datatype 'k op =
    CreateHandler 'k callable "val list"
  | CreateModifier 'k callable "val list"
  | Call 'k "val list"
  | Execute 'k "val list"
  | Poll 'k "val list"
  | Modify val 'k "val list"
  | ClearTrigger 'k
  | Cancel nat
  | SetPriority nat int
  | SetOnce nat bool

fun step :: "'k op \<Rightarrow> 'k state \<Rightarrow> 'k state" where
  "step (CreateHandler t cb as) s = snd (Trigger_createHandler t cb as s)"
| "step (CreateModifier t cb as) s = snd (Trigger_createModifier t cb as s)"
| "step (Call t as) s = snd (Trigger t as s)"
| "step (Execute t as) s = snd (Trigger_execute t as s)"
| "step (Poll t as) s = snd (Trigger_poll t as s)"
| "step (Modify v t as) s = snd (Trigger_modify v t as s)"
| "step (ClearTrigger t) s = snd (clearTrigger t s)"
| "step (Cancel h) s = (if h < handler_count s then cancel h s else s)"
| "step (SetPriority h v) s = (if h < handler_count s then setPriority h v s else s)"
| "step (SetOnce h v) s = (if h < handler_count s then setOnce h v s else s)"

definition run :: "'k op list \<Rightarrow> 'k state \<Rightarrow> 'k state" where
  "run ops s = fold step ops s"

section \<open>The traversal, stated once\<close>

text \<open>
  \<open>TriggerHandler.execute\<close> and \<open>TriggerHandler.modify\<close> differ only in the arguments that
  come before the handler's own ones, and the three loops differ only in what they keep of the
  results. \<open>invoke\<close> and \<open>visit\<close> state the common part; the lemmas \<open>execute_loop_visit\<close>,
  \<open>poll_loop_visit\<close> and \<open>modify_loop_visit\<close> below prove that the loops of the source are
  instances of it.
\<close>

definition invoke :: "val list \<Rightarrow> nat \<Rightarrow> val list \<Rightarrow> 'k state \<Rightarrow> val result \<times> 'k state" where
  "invoke pre h as s =
     (let s1 = (if once (handler_heap s h) then cancel h s else s);
          actual = pre @ args (handler_heap s1 h) @ as
      in (call (callback (handler_heap s1 h)) actual, s1\<lparr>calls := calls s1 @ [(h, actual)]\<rparr>))"

fun visit :: "val list \<Rightarrow> nat list \<Rightarrow> val list \<Rightarrow> 'k state \<Rightarrow> val list result \<times> 'k state" where
  "visit pre [] as s = (Inr [], s)"
| "visit pre (h # hs) as s =
     (if cancelled (handler_heap s h) then visit pre hs as s
      else case invoke pre h as s of
             (Inl e, s') \<Rightarrow> (Inl e, s')
           | (Inr v, s') \<Rightarrow>
               (case visit pre hs as s' of
                  (Inl e, s'') \<Rightarrow> (Inl e, s'')
                | (Inr vs, s'') \<Rightarrow> (Inr (v # vs), s'')))"

text \<open>One dispatch pass over a list: the resort step, then the traversal of the array as the
  resort step has left it. (When the needs-priority-update bit is clear the resort step returns
  at once, so calling it conditionally, as \<open>execute\<close> and \<open>modify\<close> do, or unconditionally, as
  \<open>poll\<close> does, is the same.)\<close>

definition pass :: "val list \<Rightarrow> nat \<Rightarrow> val list \<Rightarrow> 'k state \<Rightarrow> val list result \<times> 'k state" where
  "pass pre l as s =
     (let s1 = updatePriorities l s in visit pre (handlers (list_heap s1 l)) as s1)"

text \<open>How often the callback of the handler at address \<open>h\<close> has been called so far, and the
  handlers called since the trace had length \<open>n\<close>, in the order of the calls.\<close>

definition invocations :: "nat \<Rightarrow> 'k state \<Rightarrow> nat" where
  "invocations h s = length (filter (\<lambda>c. fst c = h) (calls s))"

definition invoked_since :: "nat \<Rightarrow> 'k state \<Rightarrow> nat list" where
  "invoked_since n s = map fst (drop n (calls s))"

section \<open>Callbacks of the examples\<close>

text \<open>\<open>x => x * 2\<close> and \<open>() => v\<close>.\<close>

definition times2 :: callable where
  "times2 = Function (\<lambda>xs. case xs of Num n # _ \<Rightarrow> Inr (Num (2 * n)) | _ \<Rightarrow> Inr Undefined)"

definition returning :: "val \<Rightarrow> callable" where
  "returning v = Function (\<lambda>xs. Inr v)"

text \<open>\<open>() => { throw v }\<close>\<close>

definition throwing :: "val \<Rightarrow> callable" where
  "throwing v = Function (\<lambda>xs. Inl (Thrown v))"

section \<open>Invariants of the store\<close>

text \<open>The handlers that a list's array holds are allocated, pairwise different, and point back
  to that list.\<close>

definition owned :: "'k state \<Rightarrow> bool" where
  "owned s \<longleftrightarrow>
     (\<forall>l<list_count s. distinct (handlers (list_heap s l)) \<and>
        (\<forall>h\<in>set (handlers (list_heap s l)).
           h < handler_count s \<and> list_ref (handler_heap s h) = l)) \<and>
     (\<forall>t l. handlers_map s t = Some l \<longrightarrow> l < list_count s) \<and>
     (\<forall>t l. modifiers_map s t = Some l \<longrightarrow> l < list_count s)"

text \<open>A list whose needs-purge bit is clear holds no cancelled handler.\<close>

definition purged :: "'k state \<Rightarrow> bool" where
  "purged s \<longleftrightarrow>
     (\<forall>l<list_count s. \<not> needsPurge (list_heap s l) \<longrightarrow>
        (\<forall>h\<in>set (handlers (list_heap s l)). \<not> cancelled (handler_heap s h)))"

text \<open>A list whose needs-priority-update bit is clear is sorted by ascending priority, and a
  list that never used priorities holds handlers of priority 0 only.\<close>

definition prioritised :: "'k state \<Rightarrow> bool" where
  "prioritised s \<longleftrightarrow>
     (\<forall>l<list_count s.
        (\<not> needsPriorityUpdate (list_heap s l) \<longrightarrow>
           sorted (map (\<lambda>h. priority (handler_heap s h)) (handlers (list_heap s l)))) \<and>
        (\<not> usesPriorities (list_heap s l) \<longrightarrow>
           (\<forall>h\<in>set (handlers (list_heap s l)). priority (handler_heap s h) = 0)))"

definition consistent :: "'k state \<Rightarrow> bool" where
  "consistent s \<longleftrightarrow> owned s \<and> purged s \<and> prioritised s"

text \<open>
  The order that the specification asks of a dispatch on list \<open>l\<close> in state \<open>s\<close>: the handlers
  of the array that are not cancelled, sorted by ascending priority, handlers of equal priority
  keeping the order they have in the array.
\<close>

definition dispatch_order :: "'k state \<Rightarrow> nat \<Rightarrow> nat list" where
  "dispatch_order s l =
     sort_key (\<lambda>h. priority (handler_heap s h))
       (filter (\<lambda>h. \<not> cancelled (handler_heap s h)) (handlers (list_heap s l)))"

text \<open>
  A registration takes the next free address (\<open>addHandler\<close> uses \<open>handler_count\<close> and
  increments it), so handlers were registered in the order of their addresses: an array is in
  registration order when it is sorted by address.
\<close>

definition registration_order :: "'k state \<Rightarrow> bool" where
  "registration_order s \<longleftrightarrow> (\<forall>l<list_count s. sorted (handlers (list_heap s l)))"

text \<open>
  Whether the callback of the handler at address \<open>h\<close> throws when a pass with the leading
  arguments \<open>pre\<close> and the dispatch arguments \<open>as\<close> calls it, and a list up to and including
  its first element of a given kind.
\<close>

definition throws_at :: "val list \<Rightarrow> val list \<Rightarrow> 'k state \<Rightarrow> nat \<Rightarrow> bool" where
  "throws_at pre as s h \<longleftrightarrow>
     isl (call (callback (handler_heap s h)) (pre @ args (handler_heap s h) @ as))"

fun upto_first :: "('a \<Rightarrow> bool) \<Rightarrow> 'a list \<Rightarrow> 'a list" where
  "upto_first T [] = []"
| "upto_first T (x # xs) = (if T x then [x] else x # upto_first T xs)"

text \<open>
  The handlers that a pass over list \<open>l\<close> is to call, in order: the dispatch order, up to and
  including the first handler whose callback throws (an exception ends the traversal).
\<close>

definition pass_order :: "val list \<Rightarrow> nat \<Rightarrow> val list \<Rightarrow> 'k state \<Rightarrow> nat list" where
  "pass_order pre l as s = upto_first (throws_at pre as s) (dispatch_order s l)"

text \<open>
  In the array of list \<open>l\<close>, the handlers that are not cancelled and have the same priority
  stand in registration order.
\<close>

definition ties_registered :: "'k state \<Rightarrow> nat \<Rightarrow> bool" where
  "ties_registered s l \<longleftrightarrow>
     sorted_wrt (\<lambda>a b. priority (handler_heap s a) = priority (handler_heap s b) \<longrightarrow> a < b)
       (filter (\<lambda>h. \<not> cancelled (handler_heap s h)) (handlers (list_heap s l)))"

definition ties_everywhere :: "'k state \<Rightarrow> bool" where
  "ties_everywhere s \<longleftrightarrow> (\<forall>l<list_count s. ties_registered s l)"

text \<open>
  Along the program \<open>ops\<close>, started in \<open>s\<close>, every call of \<open>setPriority\<close> leaves the array of
  the handler's list in that condition.
\<close>

fun priorities_keep_ties :: "'k op list \<Rightarrow> 'k state \<Rightarrow> bool" where
  "priorities_keep_ties [] s = True"
| "priorities_keep_ties (SetPriority h v # xs) s =
     ((h < handler_count s \<longrightarrow>
         ties_registered (setPriority h v s) (list_ref (handler_heap s h))) \<and>
      priorities_keep_ties xs (step (SetPriority h v) s))"
| "priorities_keep_ties (x # xs) s = priorities_keep_ties xs (step x s)"

text \<open>The dispatch functions among the operations.\<close>

fun is_dispatch :: "'k op \<Rightarrow> bool" where
  "is_dispatch (Call t as) = True"
| "is_dispatch (Execute t as) = True"
| "is_dispatch (Poll t as) = True"
| "is_dispatch (Modify v t as) = True"
| "is_dispatch x = False"



text \<open>The handler at address \<open>h\<close> is allocated and cancelled, and has been called \<open>n\<close> times.\<close>

definition spent :: "nat \<Rightarrow> nat \<Rightarrow> 'k state \<Rightarrow> bool" where
  "spent h n s \<longleftrightarrow> h < handler_count s \<and> cancelled (handler_heap s h) \<and> invocations h s = n"


section \<open>Basic facts about the model\<close>

subsection \<open>The loops of the source are instances of the traversal\<close>

lemma TriggerHandler_execute_invoke: "TriggerHandler_execute h as s = invoke [] h as s"
  by (simp add: TriggerHandler_execute_def invoke_def)

lemma TriggerHandler_modify_invoke: "TriggerHandler_modify h input as s = invoke [input] h as s"
  by (simp add: TriggerHandler_modify_def invoke_def)

lemma execute_loop_visit:
  "execute_loop hs as s =
     (case visit [] hs as s of (Inl e, s') \<Rightarrow> (Inl e, s') | (Inr vs, s') \<Rightarrow> (Inr (), s'))"
  by (induction hs arbitrary: s)
     (auto simp: TriggerHandler_execute_invoke split: prod.splits sum.splits)

lemma poll_loop_visit:
  "poll_loop hs as res s =
     (case visit [] hs as s of (Inl e, s') \<Rightarrow> (Inl e, s') | (Inr vs, s') \<Rightarrow> (Inr (res @ vs), s'))"
  by (induction hs arbitrary: s res)
     (auto simp: TriggerHandler_execute_invoke split: prod.splits sum.splits)

lemma modify_loop_visit:
  "modify_loop hs input as res s =
     (case visit [input] hs as s of
        (Inl e, s') \<Rightarrow> (Inl e, s')
      | (Inr vs, s') \<Rightarrow> (Inr (last (res # vs)), s'))"
  by (induction hs arbitrary: s res)
     (auto simp: TriggerHandler_modify_invoke split: prod.splits sum.splits)

subsection \<open>Pointwise form of the store updates\<close>

lemma upd_cancelled:
  "(H(h := (H h)\<lparr>cancelled := c\<rparr>)) x = (H x)\<lparr>cancelled := (if x = h then c else cancelled (H x))\<rparr>"
  by simp

lemma upd_priority:
  "(H(h := (H h)\<lparr>priority := c\<rparr>)) x = (H x)\<lparr>priority := (if x = h then c else priority (H x))\<rparr>"
  by simp

lemma upd_once:
  "(H(h := (H h)\<lparr>once := c\<rparr>)) x = (H x)\<lparr>once := (if x = h then c else once (H x))\<rparr>"
  by simp

lemma upd_needsPurge:
  "(L(l := (L l)\<lparr>needsPurge := c\<rparr>)) x = (L x)\<lparr>needsPurge := (if x = l then c else needsPurge (L x))\<rparr>"
  by simp

lemma upd_needsPriorityUpdate:
  "(L(l := (L l)\<lparr>needsPriorityUpdate := c, usesPriorities := d\<rparr>)) x =
   (L x)\<lparr>needsPriorityUpdate := (if x = l then c else needsPriorityUpdate (L x)),
          usesPriorities := (if x = l then d else usesPriorities (L x))\<rparr>"
  by simp

lemmas upds = upd_cancelled upd_priority upd_once upd_needsPurge upd_needsPriorityUpdate

subsection \<open>What each primitive does to the fields\<close>

lemma cancel_fields:
  "handler_heap (cancel h s) x =
     (handler_heap s x)\<lparr>cancelled := (if x = h then True else cancelled (handler_heap s x))\<rparr>"
  "list_heap (cancel h s) l =
     (list_heap s l)\<lparr>needsPurge :=
        (if l = list_ref (handler_heap s h) then True else needsPurge (list_heap s l))\<rparr>"
  "handler_count (cancel h s) = handler_count s"
  "list_count (cancel h s) = list_count s"
  "handlers_map (cancel h s) = handlers_map s"
  "modifiers_map (cancel h s) = modifiers_map s"
  "calls (cancel h s) = calls s"
  by (simp_all add: cancel_def queuePurge_def Let_def upds del: fun_upd_apply)

lemma setPriority_fields:
  "handler_heap (setPriority h v s) x =
     (handler_heap s x)\<lparr>priority := (if x = h then v else priority (handler_heap s x))\<rparr>"
  "list_heap (setPriority h v s) l = (list_heap s l)
      \<lparr>needsPriorityUpdate :=
         (if l = list_ref (handler_heap s h) then True else needsPriorityUpdate (list_heap s l)),
       usesPriorities :=
         (if l = list_ref (handler_heap s h) then True else usesPriorities (list_heap s l))\<rparr>"
  "handler_count (setPriority h v s) = handler_count s"
  "list_count (setPriority h v s) = list_count s"
  "handlers_map (setPriority h v s) = handlers_map s"
  "modifiers_map (setPriority h v s) = modifiers_map s"
  "calls (setPriority h v s) = calls s"
  by (simp_all add: setPriority_def queuePriorityUpdate_def Let_def upds del: fun_upd_apply)

lemma setOnce_fields:
  "handler_heap (setOnce h v s) x =
     (handler_heap s x)\<lparr>once := (if x = h then v else once (handler_heap s x))\<rparr>"
  "list_heap (setOnce h v s) = list_heap s"
  "handler_count (setOnce h v s) = handler_count s"
  "list_count (setOnce h v s) = list_count s"
  "handlers_map (setOnce h v s) = handlers_map s"
  "modifiers_map (setOnce h v s) = modifiers_map s"
  "calls (setOnce h v s) = calls s"
  by (simp_all add: setOnce_def upds del: fun_upd_apply)

lemma invoke_fields:
  "fst (invoke pre h as s) = call (callback (handler_heap s h)) (pre @ args (handler_heap s h) @ as)"
  "handler_heap (snd (invoke pre h as s)) x =
     (handler_heap s x)\<lparr>cancelled :=
        (if x = h \<and> once (handler_heap s h) then True else cancelled (handler_heap s x))\<rparr>"
  "list_heap (snd (invoke pre h as s)) l =
     (list_heap s l)\<lparr>needsPurge :=
        (if once (handler_heap s h) \<and> l = list_ref (handler_heap s h) then True
         else needsPurge (list_heap s l))\<rparr>"
  "handler_count (snd (invoke pre h as s)) = handler_count s"
  "list_count (snd (invoke pre h as s)) = list_count s"
  "handlers_map (snd (invoke pre h as s)) = handlers_map s"
  "modifiers_map (snd (invoke pre h as s)) = modifiers_map s"
  "calls (snd (invoke pre h as s)) = calls s @ [(h, pre @ args (handler_heap s h) @ as)]"
  by (simp_all add: invoke_def Let_def cancel_fields)

lemma purge_fields:
  "handler_heap (purge l s) = handler_heap s"
  "list_heap (purge l s) x =
     (if x = l \<and> needsPurge (list_heap s l)
      then (list_heap s l)
             \<lparr>handlers := filter (\<lambda>h. \<not> cancelled (handler_heap s h)) (handlers (list_heap s l)),
              needsPurge := False\<rparr>
      else list_heap s x)"
  "handler_count (purge l s) = handler_count s"
  "list_count (purge l s) = list_count s"
  "handlers_map (purge l s) = handlers_map s"
  "modifiers_map (purge l s) = modifiers_map s"
  "calls (purge l s) = calls s"
  by (simp_all add: purge_def)

lemma updatePriorities_fields:
  "handler_heap (updatePriorities l s) = handler_heap s"
  "handler_count (updatePriorities l s) = handler_count s"
  "list_count (updatePriorities l s) = list_count s"
  "handlers_map (updatePriorities l s) = handlers_map s"
  "modifiers_map (updatePriorities l s) = modifiers_map s"
  "calls (updatePriorities l s) = calls s"
  "x \<noteq> l \<Longrightarrow> list_heap (updatePriorities l s) x = list_heap s x"
  by (simp_all add: updatePriorities_def Let_def purge_fields)

lemma updatePriorities_list:
  "list_heap (updatePriorities l s) l =
     (if needsPriorityUpdate (list_heap s l)
      then (list_heap s l)
             \<lparr>handlers := sort_key (\<lambda>h. priority (handler_heap s h))
                 (if needsPurge (list_heap s l)
                  then filter (\<lambda>h. \<not> cancelled (handler_heap s h)) (handlers (list_heap s l))
                  else handlers (list_heap s l)),
              needsPriorityUpdate := False, needsPurge := False\<rparr>
      else list_heap s l)"
  by (simp add: updatePriorities_def Let_def purge_fields)

subsection \<open>The invariants hold in every state a program reaches\<close>

lemmas consistent_defs = consistent_def owned_def purged_def prioritised_def

lemma ownedD:
  "owned s \<Longrightarrow> l < list_count s \<Longrightarrow> h \<in> set (handlers (list_heap s l)) \<Longrightarrow>
   h < handler_count s \<and> list_ref (handler_heap s h) = l"
  by (simp add: owned_def)

lemma map_if_notin: "h \<notin> set xs \<Longrightarrow> map (\<lambda>x. if x = h then v else f x) xs = map f xs"
  by (induction xs) auto

lemma sorted_map_filter: "sorted (map f xs) \<Longrightarrow> sorted (map f (filter P xs))"
  by (induction xs) auto

lemma sorted_map_const: "\<forall>x\<in>set xs. f x = c \<Longrightarrow> sorted (map f xs)"
  by (induction xs) auto

lemma consistent_init: "consistent init"
  by (simp add: consistent_defs init_def)

lemma consistent_calls: "consistent (s\<lparr>calls := c\<rparr>) = consistent s"
  by (simp add: consistent_defs)

lemma consistent_setOnce: "consistent s \<Longrightarrow> consistent (setOnce h v s)"
  by (simp add: consistent_defs setOnce_fields)

lemma consistent_cancel: "consistent s \<Longrightarrow> consistent (cancel h s)"
  by (auto simp: consistent_defs cancel_fields)

lemma consistent_setPriority:
  assumes "consistent s" shows "consistent (setPriority h v s)"
proof -
  from assms have o: "owned s" and p: "purged s" and q: "prioritised s"
    by (simp_all add: consistent_def)
  have "owned (setPriority h v s)"
    using o by (simp add: owned_def setPriority_fields)
  moreover have "purged (setPriority h v s)"
    using p by (simp add: purged_def setPriority_fields)
  moreover have "prioritised (setPriority h v s)"
    unfolding prioritised_def
  proof (intro allI impI)
    fix l assume l: "l < list_count (setPriority h v s)"
    show "(\<not> needsPriorityUpdate (list_heap (setPriority h v s) l) \<longrightarrow>
            sorted (map (\<lambda>x. priority (handler_heap (setPriority h v s) x))
                     (handlers (list_heap (setPriority h v s) l)))) \<and>
          (\<not> usesPriorities (list_heap (setPriority h v s) l) \<longrightarrow>
            (\<forall>x\<in>set (handlers (list_heap (setPriority h v s) l)).
               priority (handler_heap (setPriority h v s) x) = 0))"
    proof (cases "l = list_ref (handler_heap s h)")
      case True
      then show ?thesis by (simp add: setPriority_fields)
    next
      case False
      with o l have "h \<notin> set (handlers (list_heap s l))"
        by (auto simp: setPriority_fields dest: ownedD)
      with q l False show ?thesis
        by (auto simp: prioritised_def setPriority_fields map_if_notin)
    qed
  qed
  ultimately show ?thesis by (simp add: consistent_def)
qed

lemma consistent_invoke: "consistent s \<Longrightarrow> consistent (snd (invoke pre h as s))"
  by (simp add: invoke_def Let_def consistent_calls consistent_cancel)

lemma consistent_visit: "consistent s \<Longrightarrow> consistent (snd (visit pre hs as s))"
proof (induction hs arbitrary: s)
  case Nil
  then show ?case by simp
next
  case (Cons h hs)
  show ?case
  proof (cases "cancelled (handler_heap s h)")
    case True
    with Cons show ?thesis by simp
  next
    case False
    obtain r s1 where inv: "invoke pre h as s = (r, s1)" by force
    with Cons.prems consistent_invoke [of s pre h as] have s1: "consistent s1" by simp
    obtain r2 s2 where vis: "visit pre hs as s1 = (r2, s2)" by force
    with Cons.IH [OF s1] have "consistent s2" by simp
    with False inv vis s1 show ?thesis
      by (simp split: sum.splits)
  qed
qed

lemma consistent_purge: "consistent s \<Longrightarrow> consistent (purge l s)"
  by (auto simp: consistent_defs purge_fields sorted_map_filter)

lemma consistent_sort:
  "consistent s \<Longrightarrow>
   consistent (s\<lparr>list_heap := (list_heap s)
      (l := (list_heap s l)
         \<lparr>handlers := sort_key (\<lambda>x. priority (handler_heap s x)) (handlers (list_heap s l)),
          needsPriorityUpdate := False\<rparr>)\<rparr>)"
  by (auto simp: consistent_defs)

lemma consistent_updatePriorities: "consistent s \<Longrightarrow> consistent (updatePriorities l s)"
  by (simp add: updatePriorities_def Let_def consistent_purge consistent_sort)

lemma getHandlerList_no_create:
  "getHandlerList r t False s = (lists_of r s t, s)"
  by (simp add: getHandlerList_def split: option.splits)

lemma lists_of_bound:
  "owned s \<Longrightarrow> lists_of r s t = Some l \<Longrightarrow> l < list_count s"
  by (cases r) (auto simp: owned_def)

lemma consistent_getHandlerList:
  assumes "consistent s" and "getHandlerList r t c s = (Some l, s')"
  shows "consistent s' \<and> l < list_count s'"
proof (cases "lists_of r s t")
  case (Some l')
  with assms show ?thesis
    by (auto simp: getHandlerList_def consistent_def dest: lists_of_bound)
next
  case None
  with assms have c and s': "s' = lists_update r ((lists_of r
       (s\<lparr>list_heap := (list_heap s)(list_count s := new_TriggerHandlerList t),
          list_count := Suc (list_count s)\<rparr>))(t \<mapsto> list_count s))
       (s\<lparr>list_heap := (list_heap s)(list_count s := new_TriggerHandlerList t),
          list_count := Suc (list_count s)\<rparr>)" and l: "l = list_count s"
    by (auto simp: getHandlerList_def Let_def split: if_splits)
  from assms(1) have "consistent s'"
    unfolding s' by (cases r) (auto simp: consistent_defs new_TriggerHandlerList_def less_Suc_eq)
  with l s' show ?thesis by (cases r) simp_all
qed

lemma addHandler_fields:
  "fst (addHandler l cb as s) = handler_count s"
  "handler_heap (snd (addHandler l cb as s)) =
     (handler_heap s)(handler_count s := new_TriggerHandler l cb as)"
  "list_heap (snd (addHandler l cb as s)) x =
     (if x = l
      then (list_heap s l)
             \<lparr>handlers := handlers (list_heap s l) @ [handler_count s],
              needsPriorityUpdate :=
                usesPriorities (list_heap s l) \<or> needsPriorityUpdate (list_heap s l)\<rparr>
      else list_heap s x)"
  "handler_count (snd (addHandler l cb as s)) = Suc (handler_count s)"
  "list_count (snd (addHandler l cb as s)) = list_count s"
  "handlers_map (snd (addHandler l cb as s)) = handlers_map s"
  "modifiers_map (snd (addHandler l cb as s)) = modifiers_map s"
  "calls (snd (addHandler l cb as s)) = calls s"
  by (simp_all add: addHandler_def Let_def queuePriorityUpdate_def)

lemma map_heap_upd_notin:
  "h \<notin> set xs \<Longrightarrow> map (\<lambda>x. f ((H(h := v)) x)) xs = map (\<lambda>x. f (H x)) xs"
  by (induction xs) auto

lemma consistent_addHandler:
  assumes "consistent s" and "l < list_count s"
  shows "consistent (snd (addHandler l cb as s))"
proof -
  let ?h = "handler_count s"
  let ?s' = "snd (addHandler l cb as s)"
  from assms(1) have o: "owned s" and p: "purged s" and q: "prioritised s"
    by (simp_all add: consistent_def)
  have fresh: "?h \<notin> set (handlers (list_heap s l'))" if "l' < list_count s" for l'
    using ownedD [OF o that, of ?h] by auto
  have old: "x \<noteq> ?h" if "l' < list_count s" "x \<in> set (handlers (list_heap s l'))" for x l'
    using fresh that by auto
  have "owned ?s'"
    using o assms(2) fresh
    by (auto simp: owned_def addHandler_fields new_TriggerHandler_def less_Suc_eq)
  moreover have "purged ?s'"
    using p assms(2) fresh
    by (auto simp: purged_def addHandler_fields new_TriggerHandler_def)
  moreover have "prioritised ?s'"
    unfolding prioritised_def
  proof (intro allI impI)
    fix l' assume "l' < list_count ?s'"
    then have l': "l' < list_count s" by (simp add: addHandler_fields)
    note pr = q [unfolded prioritised_def, rule_format, OF l']
    show "(\<not> needsPriorityUpdate (list_heap ?s' l') \<longrightarrow>
            sorted (map (\<lambda>h. priority (handler_heap ?s' h)) (handlers (list_heap ?s' l')))) \<and>
          (\<not> usesPriorities (list_heap ?s' l') \<longrightarrow>
            (\<forall>h\<in>set (handlers (list_heap ?s' l')). priority (handler_heap ?s' h) = 0))"
    proof (cases "l' = l")
      case False
      have same: "handler_heap ?s' x = handler_heap s x"
        if "x \<in> set (handlers (list_heap s l'))" for x
        using old [OF l' that] by (simp add: addHandler_fields)
      then have meq: "map (\<lambda>h. priority (handler_heap ?s' h)) (handlers (list_heap s l')) =
                 map (\<lambda>h. priority (handler_heap s h)) (handlers (list_heap s l'))"
        by (simp cong: map_cong)
      from pr False same show ?thesis
        by (simp add: addHandler_fields(3) meq)
    next
      case True
      show ?thesis
      proof (cases "usesPriorities (list_heap s l)")
        case True
        with \<open>l' = l\<close> show ?thesis by (simp add: addHandler_fields)
      next
        case False
        with pr \<open>l' = l\<close> have zero: "\<forall>h\<in>set (handlers (list_heap s l)). priority (handler_heap s h) = 0"
          by simp
        have z: "\<forall>h\<in>set (handlers (list_heap s l) @ [?h]). priority (handler_heap ?s' h) = 0"
          using zero by (auto simp: addHandler_fields new_TriggerHandler_def)
        then have "sorted (map (\<lambda>h. priority (handler_heap ?s' h)) (handlers (list_heap s l) @ [?h]))"
          by (rule sorted_map_const)
        with z \<open>l' = l\<close> show ?thesis
          by (simp add: addHandler_fields(3))
      qed
    qed
  qed
  ultimately show ?thesis by (simp add: consistent_def)
qed

lemma getHandlerList_create: "\<exists>l s'. getHandlerList r t True s = (Some l, s')"
  by (auto simp: getHandlerList_def Let_def split: option.splits)

lemma consistent_createHandler:
  assumes "consistent s" shows "consistent (snd (createHandler r t cb as s))"
proof -
  obtain l s' where g: "getHandlerList r t True s = (Some l, s')"
    using getHandlerList_create [of r t s] by auto
  with assms have "consistent s'" and "l < list_count s'"
    by (auto dest: consistent_getHandlerList)
  with g show ?thesis
    by (simp add: createHandler_def consistent_addHandler)
qed

subsection \<open>The dispatch functions in terms of one pass\<close>

lemma updatePriorities_idle:
  "\<not> needsPriorityUpdate (list_heap s l) \<Longrightarrow> updatePriorities l s = s"
  by (simp add: updatePriorities_def)

lemma TriggerHandlerList_execute_pass:
  "TriggerHandlerList_execute l as s =
     (case pass [] l as s of (Inl e, s') \<Rightarrow> (Inl e, s') | (Inr vs, s') \<Rightarrow> (Inr (), s'))"
  by (cases "needsPriorityUpdate (list_heap s l)")
     (simp_all add: TriggerHandlerList_execute_def pass_def execute_loop_visit updatePriorities_idle Let_def)

lemma TriggerHandlerList_poll_pass:
  "TriggerHandlerList_poll l as s =
     (case pass [] l as s of (Inl e, s') \<Rightarrow> (Inl e, s') | (Inr vs, s') \<Rightarrow> (Inr vs, purge l s'))"
  by (simp add: TriggerHandlerList_poll_def pass_def poll_loop_visit Let_def
           split: prod.splits sum.splits)

lemma TriggerHandlerList_modify_pass:
  "TriggerHandlerList_modify l v as s =
     (case pass [v] l as s of
        (Inl e, s') \<Rightarrow> (Inl e, s')
      | (Inr vs, s') \<Rightarrow> (Inr (last (v # vs)), s'))"
  by (cases "needsPriorityUpdate (list_heap s l)")
     (simp_all add: TriggerHandlerList_modify_def pass_def modify_loop_visit updatePriorities_idle Let_def)

lemma Trigger_execute_pass:
  "Trigger_execute t as s =
     (case handlers_map s t of
        None \<Rightarrow> (Inr (), s)
      | Some l \<Rightarrow>
          (case pass [] l as s of (Inl e, s') \<Rightarrow> (Inl e, s') | (Inr vs, s') \<Rightarrow> (Inr (), s')))"
  by (simp add: Trigger_execute_def getHandlerList_no_create TriggerHandlerList_execute_pass
           split: option.splits)

lemma Trigger_poll_pass:
  "Trigger_poll t as s =
     (case handlers_map s t of
        None \<Rightarrow> (Inr [], s)
      | Some l \<Rightarrow>
          (case pass [] l as s of
             (Inl e, s') \<Rightarrow> (Inl e, s')
           | (Inr vs, s') \<Rightarrow> (Inr vs, purge l s')))"
  by (simp add: Trigger_poll_def getHandlerList_no_create TriggerHandlerList_poll_pass
           split: option.splits)

lemma Trigger_modify_pass:
  "Trigger_modify v t as s =
     (case modifiers_map s t of
        None \<Rightarrow> (Inr v, s)
      | Some l \<Rightarrow>
          (case pass [v] l as s of
             (Inl e, s') \<Rightarrow> (Inl e, s')
           | (Inr vs, s') \<Rightarrow>
               (Inr (if last (v # vs) = Undefined \<or> last (v # vs) = Null then v
                     else last (v # vs)), s')))"
  by (simp add: Trigger_modify_def getHandlerList_no_create TriggerHandlerList_modify_pass
           split: option.splits prod.splits sum.splits)

lemma TriggerHandlerList_clear_throws:
  "TriggerHandlerList_clear l s =
     (Inl (TypeError ''is not a function''), fold cancel (handlers (list_heap s l)) s)"
  by (simp add: TriggerHandlerList_clear_def Array_clear_def)

lemma clearTrigger_throws:
  "clearTrigger t s =
     (case handlers_map s t of
        None \<Rightarrow> (Inl (TypeError ''cannot read properties of null''), s)
      | Some l \<Rightarrow> (Inl (TypeError ''is not a function''), fold cancel (handlers (list_heap s l)) s))"
  by (simp add: clearTrigger_def getHandlerList_no_create TriggerHandlerList_clear_throws
           split: option.splits)

text \<open>The state after each dispatch function.\<close>

lemma snd_Trigger_execute:
  "snd (Trigger_execute t as s) =
     (case handlers_map s t of None \<Rightarrow> s | Some l \<Rightarrow> snd (pass [] l as s))"
  by (simp add: Trigger_execute_pass split: option.splits prod.splits sum.splits)

lemma snd_Trigger_poll:
  "snd (Trigger_poll t as s) =
     (case handlers_map s t of
        None \<Rightarrow> s
      | Some l \<Rightarrow>
          (case fst (pass [] l as s) of
             Inl e \<Rightarrow> snd (pass [] l as s)
           | Inr vs \<Rightarrow> purge l (snd (pass [] l as s))))"
  by (simp add: Trigger_poll_pass split: option.splits prod.splits sum.splits)

lemma snd_Trigger_modify:
  "snd (Trigger_modify v t as s) =
     (case modifiers_map s t of None \<Rightarrow> s | Some l \<Rightarrow> snd (pass [v] l as s))"
  by (simp add: Trigger_modify_pass split: option.splits prod.splits sum.splits)

lemma snd_clearTrigger:
  "snd (clearTrigger t s) =
     (case handlers_map s t of
        None \<Rightarrow> s
      | Some l \<Rightarrow> fold cancel (handlers (list_heap s l)) s)"
  by (simp add: clearTrigger_throws split: option.splits)

subsection \<open>Every program keeps the invariants\<close>

lemma consistent_pass: "consistent s \<Longrightarrow> consistent (snd (pass pre l as s))"
  by (simp add: pass_def Let_def consistent_visit consistent_updatePriorities)

lemma consistent_fold_cancel: "consistent s \<Longrightarrow> consistent (fold cancel hs s)"
  by (induction hs arbitrary: s) (simp_all add: consistent_cancel)

lemma consistent_step: "consistent s \<Longrightarrow> consistent (step x s)"
  by (cases x)
     (simp_all add: Trigger_createHandler_def Trigger_createModifier_def Trigger_def
        snd_Trigger_execute snd_Trigger_poll snd_Trigger_modify snd_clearTrigger
        consistent_createHandler consistent_pass consistent_purge consistent_fold_cancel
        consistent_cancel consistent_setPriority consistent_setOnce
        split: option.splits sum.splits)

lemma consistent_run: "consistent s \<Longrightarrow> consistent (run ops s)"
  unfolding run_def by (induction ops arbitrary: s) (simp_all add: consistent_step)

lemma consistent_reachable: "consistent (run ops init)"
  by (simp add: consistent_run consistent_init)

subsection \<open>Running a concrete program\<close>

lemmas exec_defs =
  run_def init_def Trigger_def Trigger_createHandler_def Trigger_createModifier_def
  createHandler_def getHandlerList_def addHandler_def new_TriggerHandler_def
  new_TriggerHandlerList_def doNothing_def
  Trigger_execute_def Trigger_poll_def Trigger_modify_def clearTrigger_def
  TriggerHandlerList_execute_def TriggerHandlerList_poll_def TriggerHandlerList_modify_def
  TriggerHandlerList_clear_def Array_clear_def
  TriggerHandler_execute_def TriggerHandler_modify_def
  updatePriorities_def purge_def cancel_def setPriority_def setOnce_def
  queuePurge_def queuePriorityUpdate_def
  times2_def returning_def throwing_def invocations_def invoked_since_def Let_def

lemma fold_cancel_maps:
  "handlers_map (fold cancel hs s) = handlers_map s"
  "modifiers_map (fold cancel hs s) = modifiers_map s"
  by (induction hs arbitrary: s) (simp_all add: cancel_fields)

subsection \<open>What a traversal changes\<close>

lemma snd_visit_Cons:
  "snd (visit pre (h # hs) as s) =
     (if cancelled (handler_heap s h) then snd (visit pre hs as s)
      else if isl (fst (invoke pre h as s)) then snd (invoke pre h as s)
      else snd (visit pre hs as (snd (invoke pre h as s))))"
  by (auto split: prod.splits sum.splits)

lemma isl_visit_Cons:
  "isl (fst (visit pre (h # hs) as s)) =
     (if cancelled (handler_heap s h) then isl (fst (visit pre hs as s))
      else isl (fst (invoke pre h as s)) \<or> isl (fst (visit pre hs as (snd (invoke pre h as s)))))"
  by (auto split: prod.splits sum.splits)

lemma visit_fields:
  "handler_count (snd (visit pre hs as s)) = handler_count s"
  "list_count (snd (visit pre hs as s)) = list_count s"
  "handlers_map (snd (visit pre hs as s)) = handlers_map s"
  "modifiers_map (snd (visit pre hs as s)) = modifiers_map s"
  by (induction hs arbitrary: s; simp add: snd_visit_Cons invoke_fields del: visit.simps(2))+

lemma visit_list_heap:
  "\<exists>b. list_heap (snd (visit pre hs as s)) l = (list_heap s l)\<lparr>needsPurge := b\<rparr>"
proof (induction hs arbitrary: s)
  case Nil
  show ?case by (auto intro: exI [of _ "needsPurge (list_heap s l)"])
next
  case (Cons h hs)
  obtain b where "list_heap (snd (visit pre hs as (snd (invoke pre h as s)))) l =
      (list_heap (snd (invoke pre h as s)) l)\<lparr>needsPurge := b\<rparr>"
    using Cons [of "snd (invoke pre h as s)"] by blast
  then have "\<exists>b. list_heap (snd (visit pre hs as (snd (invoke pre h as s)))) l =
      (list_heap s l)\<lparr>needsPurge := b\<rparr>"
    by (simp add: invoke_fields; blast)
  moreover have "\<exists>b. list_heap (snd (invoke pre h as s)) l = (list_heap s l)\<lparr>needsPurge := b\<rparr>"
    by (rule exI, rule invoke_fields(3))
  ultimately show ?case
    using Cons [of s] by (simp add: snd_visit_Cons del: visit.simps(2))
qed

lemma visit_handlers [simp]:
  "handlers (list_heap (snd (visit pre hs as s)) l) = handlers (list_heap s l)"
  "needsPriorityUpdate (list_heap (snd (visit pre hs as s)) l) = needsPriorityUpdate (list_heap s l)"
  "usesPriorities (list_heap (snd (visit pre hs as s)) l) = usesPriorities (list_heap s l)"
  using visit_list_heap [of pre hs as s l] by auto

lemma visit_handler_heap:
  "\<exists>b. handler_heap (snd (visit pre hs as s)) x = (handler_heap s x)\<lparr>cancelled := b\<rparr>"
proof (induction hs arbitrary: s)
  case Nil
  show ?case by (auto intro: exI [of _ "cancelled (handler_heap s x)"])
next
  case (Cons h hs)
  obtain b where "handler_heap (snd (visit pre hs as (snd (invoke pre h as s)))) x =
      (handler_heap (snd (invoke pre h as s)) x)\<lparr>cancelled := b\<rparr>"
    using Cons [of "snd (invoke pre h as s)"] by blast
  then have "\<exists>b. handler_heap (snd (visit pre hs as (snd (invoke pre h as s)))) x =
      (handler_heap s x)\<lparr>cancelled := b\<rparr>"
    by (simp add: invoke_fields; blast)
  moreover have "\<exists>b. handler_heap (snd (invoke pre h as s)) x = (handler_heap s x)\<lparr>cancelled := b\<rparr>"
    by (rule exI, rule invoke_fields(2))
  ultimately show ?case
    using Cons [of s] by (simp add: snd_visit_Cons del: visit.simps(2))
qed

lemma visit_once [simp]:
  "once (handler_heap (snd (visit pre hs as s)) x) = once (handler_heap s x)"
  "priority (handler_heap (snd (visit pre hs as s)) x) = priority (handler_heap s x)"
  "args (handler_heap (snd (visit pre hs as s)) x) = args (handler_heap s x)"
  "callback (handler_heap (snd (visit pre hs as s)) x) = callback (handler_heap s x)"
  "list_ref (handler_heap (snd (visit pre hs as s)) x) = list_ref (handler_heap s x)"
  using visit_handler_heap [of pre hs as s x] by auto

lemma visit_cancelled_mono:
  "cancelled (handler_heap s x) \<Longrightarrow> cancelled (handler_heap (snd (visit pre hs as s)) x)"
  by (induction hs arbitrary: s) (simp_all add: snd_visit_Cons invoke_fields del: visit.simps(2))

lemma invocations_invoke:
  "invocations x (snd (invoke pre h as s)) = invocations x s + (if x = h then 1 else 0)"
  by (simp add: invocations_def invoke_fields)

text \<open>A cancelled handler is skipped.\<close>

lemma visit_skips_cancelled:
  "cancelled (handler_heap s x) \<Longrightarrow> invocations x (snd (visit pre hs as s)) = invocations x s"
proof (induction hs arbitrary: s)
  case Nil
  then show ?case by simp
next
  case (Cons h hs)
  show ?case
  proof (cases "cancelled (handler_heap s h)")
    case True
    with Cons show ?thesis by (simp add: snd_visit_Cons del: visit.simps(2))
  next
    case False
    with Cons.prems have "x \<noteq> h" by auto
    moreover from Cons.prems have "cancelled (handler_heap (snd (invoke pre h as s)) x)"
      by (simp add: invoke_fields)
    ultimately show ?thesis
      using False Cons.IH [of "snd (invoke pre h as s)"]
      by (simp add: snd_visit_Cons invocations_invoke del: visit.simps(2))
  qed
qed


lemma visit_all_cancelled:
  "\<forall>h\<in>set hs. cancelled (handler_heap s h) \<Longrightarrow> visit pre hs as s = (Inr [], s)"
  by (induction hs) simp_all

subsection \<open>What the maintenance steps and a pass change\<close>

lemma updatePriorities_set:
  "set (handlers (list_heap (updatePriorities l s) x)) \<subseteq> set (handlers (list_heap s x))"
  "\<not> cancelled (handler_heap s h) \<Longrightarrow>
     h \<in> set (handlers (list_heap (updatePriorities l s) x)) \<longleftrightarrow> h \<in> set (handlers (list_heap s x))"
  by (cases "x = l"; auto simp: updatePriorities_fields updatePriorities_list)+

lemma purge_set:
  "set (handlers (list_heap (purge l s) x)) \<subseteq> set (handlers (list_heap s x))"
  "\<not> cancelled (handler_heap s h) \<Longrightarrow>
     h \<in> set (handlers (list_heap (purge l s) x)) \<longleftrightarrow> h \<in> set (handlers (list_heap s x))"
  by (auto simp: purge_fields)

lemma invocations_updatePriorities [simp]:
  "invocations h (updatePriorities l s) = invocations h s"
  by (simp add: invocations_def updatePriorities_fields)

lemma invocations_purge [simp]: "invocations h (purge l s) = invocations h s"
  by (simp add: invocations_def purge_fields)

lemma invocations_cancel [simp]: "invocations h (cancel x s) = invocations h s"
  by (simp add: invocations_def cancel_fields)

lemma pass_fields:
  "handler_count (snd (pass pre l as s)) = handler_count s"
  "list_count (snd (pass pre l as s)) = list_count s"
  "handlers_map (snd (pass pre l as s)) = handlers_map s"
  "modifiers_map (snd (pass pre l as s)) = modifiers_map s"
  "once (handler_heap (snd (pass pre l as s)) x) = once (handler_heap s x)"
  "priority (handler_heap (snd (pass pre l as s)) x) = priority (handler_heap s x)"
  "args (handler_heap (snd (pass pre l as s)) x) = args (handler_heap s x)"
  "callback (handler_heap (snd (pass pre l as s)) x) = callback (handler_heap s x)"
  "list_ref (handler_heap (snd (pass pre l as s)) x) = list_ref (handler_heap s x)"
  "handlers (list_heap (snd (pass pre l as s)) x) = handlers (list_heap (updatePriorities l s) x)"
  by (simp_all add: pass_def Let_def visit_fields updatePriorities_fields)

lemma pass_cancelled_mono:
  "cancelled (handler_heap s x) \<Longrightarrow> cancelled (handler_heap (snd (pass pre l as s)) x)"
  by (simp add: pass_def Let_def visit_cancelled_mono updatePriorities_fields)

lemma pass_skips_cancelled:
  "cancelled (handler_heap s x) \<Longrightarrow> invocations x (snd (pass pre l as s)) = invocations x s"
  by (simp add: pass_def Let_def visit_skips_cancelled updatePriorities_fields)


lemma pass_all_cancelled:
  assumes "\<forall>h\<in>set (handlers (list_heap s l)). cancelled (handler_heap s h)"
  shows "pass pre l as s = (Inr [], updatePriorities l s)"
proof -
  from assms updatePriorities_set(1) [of l s l]
  have "\<forall>h\<in>set (handlers (list_heap (updatePriorities l s) l)).
          cancelled (handler_heap (updatePriorities l s) h)"
    by (auto simp: updatePriorities_fields)
  then show ?thesis
    by (simp add: pass_def Let_def visit_all_cancelled)
qed

subsection \<open>Cancelled is terminal\<close>

lemma getHandlerList_fields:
  "handler_heap (snd (getHandlerList r t c s)) = handler_heap s"
  "handler_count (snd (getHandlerList r t c s)) = handler_count s"
  "calls (snd (getHandlerList r t c s)) = calls s"
  by (cases r; simp add: getHandlerList_def Let_def split: option.splits)+

lemma createHandler_fields:
  "fst (createHandler r t cb as s) = handler_count s"
  "handler_count (snd (createHandler r t cb as s)) = Suc (handler_count s)"
  "calls (snd (createHandler r t cb as s)) = calls s"
  "x \<noteq> handler_count s \<Longrightarrow> handler_heap (snd (createHandler r t cb as s)) x = handler_heap s x"
proof -
  obtain l s' where g: "getHandlerList r t True s = (Some l, s')"
    using getHandlerList_create [of r t s] by auto
  with getHandlerList_fields [of r t True s]
  have "handler_heap s' = handler_heap s" "handler_count s' = handler_count s" "calls s' = calls s"
    by simp_all
  with g show "fst (createHandler r t cb as s) = handler_count s"
    "handler_count (snd (createHandler r t cb as s)) = Suc (handler_count s)"
    "calls (snd (createHandler r t cb as s)) = calls s"
    "x \<noteq> handler_count s \<Longrightarrow> handler_heap (snd (createHandler r t cb as s)) x = handler_heap s x"
    by (simp_all add: createHandler_def addHandler_fields)
qed

lemma fold_cancel_fields:
  "handler_count (fold cancel hs s) = handler_count s"
  "calls (fold cancel hs s) = calls s"
  "cancelled (handler_heap s x) \<Longrightarrow> cancelled (handler_heap (fold cancel hs s) x)"
  by (induction hs arbitrary: s; simp add: cancel_fields)+

lemma spent_pass: "spent h n s \<Longrightarrow> spent h n (snd (pass pre l as s))"
  by (simp add: spent_def pass_fields pass_cancelled_mono pass_skips_cancelled)

lemma spent_purge: "spent h n s \<Longrightarrow> spent h n (purge l s)"
  by (simp add: spent_def purge_fields)

lemma spent_step: "spent h n s \<Longrightarrow> spent h n (step x s)"
proof (cases x)
  case (CreateHandler t cb as)
  then show "spent h n s \<Longrightarrow> ?thesis"
    by (simp add: spent_def Trigger_createHandler_def createHandler_fields invocations_def)
next
  case (CreateModifier t cb as)
  then show "spent h n s \<Longrightarrow> ?thesis"
    by (simp add: spent_def Trigger_createModifier_def createHandler_fields invocations_def)
next
  case (Call t as)
  then show "spent h n s \<Longrightarrow> ?thesis"
    by (simp add: Trigger_def snd_Trigger_execute spent_pass split: option.splits)
next
  case (Execute t as)
  then show "spent h n s \<Longrightarrow> ?thesis"
    by (simp add: snd_Trigger_execute spent_pass split: option.splits)
next
  case (Poll t as)
  then show "spent h n s \<Longrightarrow> ?thesis"
    by (simp add: snd_Trigger_poll spent_pass spent_purge split: option.splits sum.splits)
next
  case (Modify v t as)
  then show "spent h n s \<Longrightarrow> ?thesis"
    by (simp add: snd_Trigger_modify spent_pass split: option.splits)
next
  case (ClearTrigger t)
  then show "spent h n s \<Longrightarrow> ?thesis"
    by (simp add: snd_clearTrigger spent_def fold_cancel_fields invocations_def split: option.splits)
next
  case (Cancel x)
  then show "spent h n s \<Longrightarrow> ?thesis"
    by (simp add: spent_def cancel_fields)
next
  case (SetPriority x v)
  then show "spent h n s \<Longrightarrow> ?thesis"
    by (simp add: spent_def setPriority_fields invocations_def)
next
  case (SetOnce x v)
  then show "spent h n s \<Longrightarrow> ?thesis"
    by (simp add: spent_def setOnce_fields invocations_def)
qed

lemma spent_run: "spent h n s \<Longrightarrow> spent h n (run ops s)"
  unfolding run_def by (induction ops arbitrary: s) (simp_all add: spent_step)

subsection \<open>The trace of a completed traversal\<close>

lemma visit_trace:
  assumes "visit pre hs as s = (Inr vs, s')" and "distinct hs"
  shows "calls s' = calls s @
           map (\<lambda>h. (h, pre @ args (handler_heap s h) @ as))
             (filter (\<lambda>h. \<not> cancelled (handler_heap s h)) hs) \<and>
         map Inr vs =
           map (\<lambda>h. call (callback (handler_heap s h)) (pre @ args (handler_heap s h) @ as))
             (filter (\<lambda>h. \<not> cancelled (handler_heap s h)) hs)"
  using assms
proof (induction hs arbitrary: s vs)
  case Nil
  then show ?case by simp
next
  case (Cons h hs)
  show ?case
  proof (cases "cancelled (handler_heap s h)")
    case True
    with Cons show ?thesis by simp
  next
    case False
    obtain r s1 where inv: "invoke pre h as s = (r, s1)" by force
    then have s1: "s1 = snd (invoke pre h as s)" and r': "r = fst (invoke pre h as s)"
      by simp_all
    from Cons.prems(1) False inv obtain v where r: "r = Inr v"
      by (cases r) auto
    from Cons.prems(1) False inv r obtain ws where
      vis: "visit pre hs as s1 = (Inr ws, s')" and vs: "vs = v # ws"
      by (auto split: prod.splits sum.splits)
    from Cons.prems(2) have d: "distinct hs" and nin: "h \<notin> set hs" by auto
    have same: "cancelled (handler_heap s1 x) = cancelled (handler_heap s x)"
      "args (handler_heap s1 x) = args (handler_heap s x)"
      "callback (handler_heap s1 x) = callback (handler_heap s x)" if "x \<in> set hs" for x
      using that nin by (auto simp: s1 invoke_fields)
    have f: "filter (\<lambda>x. \<not> cancelled (handler_heap s1 x)) hs =
             filter (\<lambda>x. \<not> cancelled (handler_heap s x)) hs"
      by (rule filter_cong) (simp_all add: same)
    have m1: "map (\<lambda>x. (x, pre @ args (handler_heap s1 x) @ as))
                 (filter (\<lambda>x. \<not> cancelled (handler_heap s x)) hs) =
              map (\<lambda>x. (x, pre @ args (handler_heap s x) @ as))
                 (filter (\<lambda>x. \<not> cancelled (handler_heap s x)) hs)"
      by (rule map_cong) (simp_all add: same)
    have m2: "map (\<lambda>x. call (callback (handler_heap s1 x)) (pre @ args (handler_heap s1 x) @ as))
                 (filter (\<lambda>x. \<not> cancelled (handler_heap s x)) hs) =
              map (\<lambda>x. call (callback (handler_heap s x)) (pre @ args (handler_heap s x) @ as))
                 (filter (\<lambda>x. \<not> cancelled (handler_heap s x)) hs)"
      by (rule map_cong) (simp_all add: same)
    from r r' have v: "call (callback (handler_heap s h)) (pre @ args (handler_heap s h) @ as) = Inr v"
      by (simp add: invoke_fields)
    have c: "calls s1 = calls s @ [(h, pre @ args (handler_heap s h) @ as)]"
      by (simp add: s1 invoke_fields)
    from Cons.IH [OF vis d] show ?thesis
      unfolding f m1 m2 using False vs v c
      by simp
  qed
qed

lemma filter_all: "\<forall>x\<in>set xs. P x \<Longrightarrow> filter P xs = xs"
  by (induction xs) auto

text \<open>The array after the resort step, in a consistent state.\<close>

lemma updatePriorities_order:
  assumes "consistent s" and "l < list_count s"
  shows "filter (\<lambda>h. \<not> cancelled (handler_heap s h)) (handlers (list_heap (updatePriorities l s) l))
           = dispatch_order s l"
proof -
  let ?act = "\<lambda>h. \<not> cancelled (handler_heap s h)"
  let ?pr = "\<lambda>h. priority (handler_heap s h)"
  let ?hs = "handlers (list_heap s l)"
  from assms have p: "\<not> needsPurge (list_heap s l) \<Longrightarrow> \<forall>h\<in>set ?hs. ?act h"
    and q: "\<not> needsPriorityUpdate (list_heap s l) \<Longrightarrow> sorted (map ?pr ?hs)"
    by (auto simp: consistent_defs)
  show ?thesis
  proof (cases "needsPriorityUpdate (list_heap s l)")
    case False
    with q have "sorted (map ?pr (filter ?act ?hs))" by (simp add: sorted_map_filter)
    then have "sort_key ?pr (filter ?act ?hs) = filter ?act ?hs"
      by (rule sort_key_id_if_sorted)
    with False show ?thesis
      by (simp add: dispatch_order_def updatePriorities_idle)
  next
    case True
    have "(if needsPurge (list_heap s l) then filter ?act ?hs else ?hs) = filter ?act ?hs"
      using p by (simp add: filter_all)
    with True have "handlers (list_heap (updatePriorities l s) l) = sort_key ?pr (filter ?act ?hs)"
      by (simp add: updatePriorities_list)
    then show ?thesis
      by (simp add: dispatch_order_def filter_all)
  qed
qed

lemma pass_trace:
  assumes "consistent s" and "l < list_count s" and "pass pre l as s = (Inr vs, s')"
  shows "calls s' = calls s @
           map (\<lambda>h. (h, pre @ args (handler_heap s h) @ as)) (dispatch_order s l) \<and>
         map Inr vs =
           map (\<lambda>h. call (callback (handler_heap s h)) (pre @ args (handler_heap s h) @ as))
             (dispatch_order s l)"
proof -
  let ?s1 = "updatePriorities l s"
  from assms(1) have "consistent ?s1" by (rule consistent_updatePriorities)
  with assms(2) have d: "distinct (handlers (list_heap ?s1 l))"
    by (simp add: consistent_defs updatePriorities_fields)
  from assms(3) have v: "visit pre (handlers (list_heap ?s1 l)) as ?s1 = (Inr vs, s')"
    by (simp add: pass_def Let_def)
  from visit_trace [OF v d] updatePriorities_order [OF assms(1,2)] show ?thesis
    by (simp add: updatePriorities_fields)
qed

lemma invoked_since_append:
  "calls s' = calls s @ map (\<lambda>h. (h, f h)) hs \<Longrightarrow> invoked_since (length (calls s)) s' = hs"
  by (simp add: invoked_since_def comp_def)

subsection \<open>Properties of the dispatch order\<close>

lemma insort_key_lex:
  fixes f :: "nat \<Rightarrow> int"
  assumes "sorted_wrt (\<lambda>a b. f a < f b \<or> (f a = f b \<and> a < b)) ys" and "\<forall>y\<in>set ys. x < y"
  shows "sorted_wrt (\<lambda>a b. f a < f b \<or> (f a = f b \<and> a < b)) (insort_key f x ys)"
  using assms by (induction ys) (auto simp: set_insort_key)

lemma sort_key_lex:
  fixes f :: "nat \<Rightarrow> int"
  assumes "sorted xs" and "distinct xs"
  shows "sorted_wrt (\<lambda>a b. f a < f b \<or> (f a = f b \<and> a < b)) (sort_key f xs)"
  using assms
proof (induction xs)
  case Nil
  then show ?case by simp
next
  case (Cons x xs)
  then have "\<forall>y\<in>set (sort_key f xs). x < y"
    by (auto simp: le_less)
  with Cons show ?case
    by (simp add: insort_key_lex)
qed

lemma sorted_filter_addresses: "sorted xs \<Longrightarrow> sorted (filter P xs)" for xs :: "nat list"
  by (induction xs) auto

lemma dispatch_order_props:
  "sorted (map (\<lambda>h. priority (handler_heap s h)) (dispatch_order s l))"
  "set (dispatch_order s l) =
     {h \<in> set (handlers (list_heap s l)). \<not> cancelled (handler_heap s h)}"
  "filter (\<lambda>h. priority (handler_heap s h) = p) (dispatch_order s l) =
     filter (\<lambda>h. priority (handler_heap s h) = p)
       (filter (\<lambda>h. \<not> cancelled (handler_heap s h)) (handlers (list_heap s l)))"
  by (simp_all add: dispatch_order_def sort_key_stable)

lemma dispatch_order_distinct:
  "consistent s \<Longrightarrow> l < list_count s \<Longrightarrow> distinct (dispatch_order s l)"
  by (simp add: dispatch_order_def consistent_defs)

lemma dispatch_order_lex:
  assumes "consistent s" and "l < list_count s" and "sorted (handlers (list_heap s l))"
  shows "sorted_wrt (\<lambda>a b. priority (handler_heap s a) < priority (handler_heap s b) \<or>
            (priority (handler_heap s a) = priority (handler_heap s b) \<and> a < b))
          (dispatch_order s l)"
  unfolding dispatch_order_def
proof (rule sort_key_lex)
  show "sorted (filter (\<lambda>h. \<not> cancelled (handler_heap s h)) (handlers (list_heap s l)))"
    using assms(3) by (rule sorted_filter_addresses)
  show "distinct (filter (\<lambda>h. \<not> cancelled (handler_heap s h)) (handlers (list_heap s l)))"
    using assms(1,2) by (simp add: consistent_defs)
qed

lemma dispatch_order_before:
  assumes "i < length (dispatch_order s l)" and "j < length (dispatch_order s l)"
    and "priority (handler_heap s (dispatch_order s l ! i)) <
         priority (handler_heap s (dispatch_order s l ! j))"
  shows "i < j"
proof (rule ccontr)
  assume "\<not> i < j"
  then have "j \<le> i" by simp
  with dispatch_order_props(1) [of s l] assms(1)
  have "priority (handler_heap s (dispatch_order s l ! j)) \<le>
        priority (handler_heap s (dispatch_order s l ! i))"
    using sorted_nth_mono [of "map (\<lambda>h. priority (handler_heap s h)) (dispatch_order s l)" j i]
    by simp
  with assms(3) show False by simp
qed

subsection \<open>Before the first dispatch the arrays are in registration order\<close>

lemma fold_cancel_handlers:
  "handlers (list_heap (fold cancel hs s) l) = handlers (list_heap s l)"
  "list_count (fold cancel hs s) = list_count s"
  by (induction hs arbitrary: s; simp add: cancel_fields)+

lemma registration_order_step:
  assumes "consistent s" and "registration_order s" and "\<not> is_dispatch x"
  shows "registration_order (step x s)"
proof -
  have create: "registration_order (snd (createHandler r t cb as s))" for r t cb as
  proof -
    obtain l s1 where g: "getHandlerList r t True s = (Some l, s1)"
      using getHandlerList_create [of r t s] by auto
    with assms(1) have c1: "consistent s1" and l: "l < list_count s1"
      by (auto dest: consistent_getHandlerList)
    have r1: "registration_order s1"
    proof (cases "lists_of r s t")
      case (Some l')
      with g assms(2) show ?thesis by (simp add: getHandlerList_def)
    next
      case None
      with g assms(2) show ?thesis
        by (cases r)
           (auto simp: getHandlerList_def Let_def registration_order_def
              new_TriggerHandlerList_def less_Suc_eq)
    qed
    have "\<forall>h\<in>set (handlers (list_heap s1 l)). h < handler_count s1"
      using c1 l by (auto simp: consistent_defs)
    then have "sorted (handlers (list_heap s1 l) @ [handler_count s1])"
      using r1 l by (auto simp: registration_order_def sorted_append less_imp_le)
    with r1 g show ?thesis
      by (simp add: createHandler_def registration_order_def addHandler_fields)
  qed
  show ?thesis
  proof (cases x)
    case (ClearTrigger t)
    with assms(2) show ?thesis
      by (simp add: snd_clearTrigger registration_order_def fold_cancel_handlers
            split: option.splits)
  qed (use assms create in \<open>simp_all add: Trigger_createHandler_def Trigger_createModifier_def
        registration_order_def cancel_fields setPriority_fields setOnce_fields\<close>)
qed

lemma registration_order_fold:
  "consistent s \<Longrightarrow> registration_order s \<Longrightarrow> list_all (\<lambda>x. \<not> is_dispatch x) ops \<Longrightarrow>
   registration_order (fold step ops s)"
  by (induction ops arbitrary: s) (simp_all add: consistent_step registration_order_step)

lemma registration_order_run:
  assumes "list_all (\<lambda>x. \<not> is_dispatch x) ops"
  shows "registration_order (run ops init)"
proof -
  have "registration_order (init :: 'a state)"
    by (simp add: registration_order_def init_def)
  with assms show ?thesis
    unfolding run_def by (intro registration_order_fold consistent_init)
qed

subsection \<open>A once-flagged handler under dispatches\<close>

lemma dispatch_step_cases:
  assumes "is_dispatch x"
  shows "step x s = s \<or> (\<exists>pre l as. step x s = snd (pass pre l as s)) \<or>
         (\<exists>pre l as. step x s = purge l (snd (pass pre l as s)))"
  using assms
  by (cases x;
      simp add: Trigger_def snd_Trigger_execute snd_Trigger_poll snd_Trigger_modify
        split: option.splits sum.splits;
      blast)






subsection \<open>The trace of any traversal\<close>

lemma upto_first_cong:
  "\<forall>x\<in>set xs. T x = T' x \<Longrightarrow> upto_first T xs = upto_first T' xs"
  by (induction xs) auto

lemma set_upto_first: "set (upto_first T xs) \<subseteq> set xs"
  by (induction xs) auto


lemma upto_first_none: "\<forall>x\<in>set xs. \<not> T x \<Longrightarrow> upto_first T xs = xs"
  by (induction xs) auto

lemma upto_first_prefix: "\<exists>zs. xs = upto_first T xs @ zs"
  by (induction xs) auto


lemma visit_trace_any:
  assumes "distinct hs"
  shows "calls (snd (visit pre hs as s)) = calls s @
           map (\<lambda>h. (h, pre @ args (handler_heap s h) @ as))
             (upto_first (throws_at pre as s) (filter (\<lambda>h. \<not> cancelled (handler_heap s h)) hs)) \<and>
         (isl (fst (visit pre hs as s)) \<longleftrightarrow>
            (\<exists>h\<in>set (filter (\<lambda>h. \<not> cancelled (handler_heap s h)) hs). throws_at pre as s h))"
  using assms
proof (induction hs arbitrary: s)
  case Nil
  then show ?case by simp
next
  case (Cons h hs)
  show ?case
  proof (cases "cancelled (handler_heap s h)")
    case True
    with Cons show ?thesis by (simp add: snd_visit_Cons isl_visit_Cons del: visit.simps(2))
  next
    case False
    let ?s1 = "snd (invoke pre h as s)"
    from Cons.prems have d: "distinct hs" and nin: "h \<notin> set hs" by auto
    have c: "calls ?s1 = calls s @ [(h, pre @ args (handler_heap s h) @ as)]"
      and t: "isl (fst (invoke pre h as s)) = throws_at pre as s h"
      by (simp_all add: invoke_fields throws_at_def)
    show ?thesis
    proof (cases "throws_at pre as s h")
      case True
      with False c t show ?thesis
        by (auto simp add: snd_visit_Cons isl_visit_Cons simp del: visit.simps(2))
    next
      case nothrow: False
      have same: "cancelled (handler_heap ?s1 x) = cancelled (handler_heap s x)"
        "args (handler_heap ?s1 x) = args (handler_heap s x)"
        "throws_at pre as ?s1 x = throws_at pre as s x" if "x \<in> set hs" for x
        using that nin by (auto simp: invoke_fields throws_at_def)
      have f: "filter (\<lambda>x. \<not> cancelled (handler_heap ?s1 x)) hs =
               filter (\<lambda>x. \<not> cancelled (handler_heap s x)) hs"
        by (rule filter_cong) (simp_all add: same)
      have u: "upto_first (throws_at pre as ?s1) (filter (\<lambda>x. \<not> cancelled (handler_heap s x)) hs) =
               upto_first (throws_at pre as s) (filter (\<lambda>x. \<not> cancelled (handler_heap s x)) hs)"
        by (rule upto_first_cong) (simp add: same)
      have m: "map (\<lambda>x. (x, pre @ args (handler_heap ?s1 x) @ as))
                 (upto_first (throws_at pre as s) (filter (\<lambda>x. \<not> cancelled (handler_heap s x)) hs)) =
               map (\<lambda>x. (x, pre @ args (handler_heap s x) @ as))
                 (upto_first (throws_at pre as s) (filter (\<lambda>x. \<not> cancelled (handler_heap s x)) hs))"
        using set_upto_first [of "throws_at pre as s" "filter (\<lambda>x. \<not> cancelled (handler_heap s x)) hs"]
        by (intro map_cong) (auto simp: same)
      have e: "(\<exists>x\<in>set (filter (\<lambda>x. \<not> cancelled (handler_heap s x)) hs). throws_at pre as ?s1 x) =
               (\<exists>x\<in>set (filter (\<lambda>x. \<not> cancelled (handler_heap s x)) hs). throws_at pre as s x)"
        by (auto simp: same)
      from Cons.IH [OF d, of ?s1] show ?thesis
        unfolding f u m e using False nothrow c t
        by (simp add: snd_visit_Cons isl_visit_Cons del: visit.simps(2))
    qed
  qed
qed

lemma pass_trace_any:
  assumes "consistent s" and "l < list_count s"
  shows "calls (snd (pass pre l as s)) = calls s @
           map (\<lambda>h. (h, pre @ args (handler_heap s h) @ as)) (pass_order pre l as s) \<and>
         (isl (fst (pass pre l as s)) \<longleftrightarrow>
            (\<exists>h\<in>set (dispatch_order s l). throws_at pre as s h))"
proof -
  let ?s1 = "updatePriorities l s"
  from assms(1) have "consistent ?s1" by (rule consistent_updatePriorities)
  with assms(2) have d: "distinct (handlers (list_heap ?s1 l))"
    by (simp add: consistent_defs updatePriorities_fields)
  have t: "throws_at pre as ?s1 = throws_at pre as s"
    by (simp add: throws_at_def updatePriorities_fields fun_eq_iff)
  from visit_trace_any [OF d, of pre as ?s1] updatePriorities_order [OF assms] show ?thesis
    by (simp add: pass_def pass_order_def Let_def updatePriorities_fields t)
qed

lemma invoked_since_pass:
  assumes "consistent s" and "l < list_count s"
  shows "invoked_since (length (calls s)) (snd (pass pre l as s)) = pass_order pre l as s"
    and "invoked_since (length (calls s)) (purge l' (snd (pass pre l as s))) = pass_order pre l as s"
    and "invocations h (snd (pass pre l as s)) =
           invocations h s + length (filter (\<lambda>x. x = h) (pass_order pre l as s))"
proof -
  from pass_trace_any [OF assms, of pre as]
  have c: "calls (snd (pass pre l as s)) = calls s @
           map (\<lambda>h. (h, pre @ args (handler_heap s h) @ as)) (pass_order pre l as s)" by simp
  then show "invoked_since (length (calls s)) (snd (pass pre l as s)) = pass_order pre l as s"
    by (rule invoked_since_append)
  from c have "calls (purge l' (snd (pass pre l as s))) = calls s @
           map (\<lambda>h. (h, pre @ args (handler_heap s h) @ as)) (pass_order pre l as s)"
    by (simp add: purge_fields)
  then show "invoked_since (length (calls s)) (purge l' (snd (pass pre l as s))) = pass_order pre l as s"
    by (rule invoked_since_append)
  show "invocations h (snd (pass pre l as s)) =
           invocations h s + length (filter (\<lambda>x. x = h) (pass_order pre l as s))"
    unfolding invocations_def c by (simp add: filter_map comp_def)
qed

subsection \<open>Ties and the registration order\<close>

lemma insort_key_ties:
  fixes f :: "nat \<Rightarrow> int"
  assumes "sorted_wrt (\<lambda>a b. f a < f b \<or> (f a = f b \<and> a < b)) ys"
    and "\<forall>y\<in>set ys. f x = f y \<longrightarrow> x < y"
  shows "sorted_wrt (\<lambda>a b. f a < f b \<or> (f a = f b \<and> a < b)) (insort_key f x ys)"
  using assms by (induction ys) (auto simp: set_insort_key)

lemma sort_key_ties:
  fixes f :: "nat \<Rightarrow> int"
  assumes "sorted_wrt (\<lambda>a b. f a = f b \<longrightarrow> a < b) xs"
  shows "sorted_wrt (\<lambda>a b. f a < f b \<or> (f a = f b \<and> a < b)) (sort_key f xs)"
  using assms by (induction xs) (simp_all add: insort_key_ties)

lemma ties_of_classes:
  fixes f :: "nat \<Rightarrow> int"
  assumes "\<And>p. sorted_wrt (<) (filter (\<lambda>x. f x = p) xs)"
  shows "sorted_wrt (\<lambda>a b. f a = f b \<longrightarrow> a < b) xs"
  using assms
proof (induction xs)
  case Nil
  then show ?case by simp
next
  case (Cons x xs)
  have "sorted_wrt (<) (filter (\<lambda>y. f y = p) xs)" for p
    using Cons.prems [of p] by (simp split: if_splits)
  then have "sorted_wrt (\<lambda>a b. f a = f b \<longrightarrow> a < b) xs" by (rule Cons.IH)
  moreover have "\<forall>y\<in>set xs. f x = f y \<longrightarrow> x < y"
    using Cons.prems [of "f x"] by auto
  ultimately show ?case by simp
qed

lemma classes_of_lex:
  fixes f :: "nat \<Rightarrow> int"
  assumes "sorted_wrt (\<lambda>a b. f a < f b \<or> (f a = f b \<and> a < b)) xs"
  shows "sorted_wrt (<) (filter (\<lambda>x. f x = p) xs)"
  using assms by (induction xs) auto

lemma ties_iff_lex:
  fixes f :: "nat \<Rightarrow> int"
  shows "sorted_wrt (\<lambda>a b. f a = f b \<longrightarrow> a < b) xs \<longleftrightarrow>
         sorted_wrt (\<lambda>a b. f a < f b \<or> (f a = f b \<and> a < b)) (sort_key f xs)"
proof
  assume "sorted_wrt (\<lambda>a b. f a = f b \<longrightarrow> a < b) xs"
  then show "sorted_wrt (\<lambda>a b. f a < f b \<or> (f a = f b \<and> a < b)) (sort_key f xs)"
    by (rule sort_key_ties)
next
  assume l: "sorted_wrt (\<lambda>a b. f a < f b \<or> (f a = f b \<and> a < b)) (sort_key f xs)"
  have "sorted_wrt (<) (filter (\<lambda>x. f x = p) xs)" for p
    using classes_of_lex [OF l, of p] by (simp add: sort_key_stable)
  then show "sorted_wrt (\<lambda>a b. f a = f b \<longrightarrow> a < b) xs" by (rule ties_of_classes)
qed

lemma ties_registered_iff:
  "ties_registered s l \<longleftrightarrow>
   sorted_wrt (\<lambda>a b. priority (handler_heap s a) < priority (handler_heap s b) \<or>
                 (priority (handler_heap s a) = priority (handler_heap s b) \<and> a < b))
     (dispatch_order s l)"
  unfolding ties_registered_def dispatch_order_def by (rule ties_iff_lex)

lemma sorted_wrt_less_ties:
  "sorted xs \<Longrightarrow> distinct xs \<Longrightarrow> sorted_wrt (\<lambda>a b. f a = f b \<longrightarrow> a < b) (filter P xs)"
  for xs :: "nat list"
  by (induction xs) (auto simp: le_less)

lemma ties_registered_sorted:
  "consistent s \<Longrightarrow> l < list_count s \<Longrightarrow> sorted (handlers (list_heap s l)) \<Longrightarrow>
   ties_registered s l"
  unfolding ties_registered_def by (rule sorted_wrt_less_ties) (simp_all add: consistent_defs)

text \<open>Nothing but a change of priority takes the condition away.\<close>

lemma ties_registered_mono:
  assumes "ties_registered s l"
    and "handlers (list_heap s' l) = handlers (list_heap s l)"
    and "\<forall>h\<in>set (handlers (list_heap s l)).
           priority (handler_heap s' h) = priority (handler_heap s h) \<and>
           (cancelled (handler_heap s h) \<longrightarrow> cancelled (handler_heap s' h))"
  shows "ties_registered s' l"
proof -
  let ?hs = "handlers (list_heap s l)"
  let ?a = "\<lambda>h. \<not> cancelled (handler_heap s h)" and ?a' = "\<lambda>h. \<not> cancelled (handler_heap s' h)"
  have "filter ?a' ?hs = filter ?a' (filter ?a ?hs)"
    using assms(3) by (auto intro: filter_cong)
  moreover have "sorted_wrt (\<lambda>a b. priority (handler_heap s a) = priority (handler_heap s b) \<longrightarrow> a < b)
      (filter ?a' (filter ?a ?hs))"
    using assms(1) unfolding ties_registered_def by (rule sorted_wrt_filter)
  ultimately have "sorted_wrt (\<lambda>a b. priority (handler_heap s a) = priority (handler_heap s b) \<longrightarrow> a < b)
      (filter ?a' ?hs)" by simp
  then have "sorted_wrt (\<lambda>a b. priority (handler_heap s' a) = priority (handler_heap s' b) \<longrightarrow> a < b)
      (filter ?a' ?hs)"
    by (rule sorted_wrt_mono_rel [rotated]) (use assms(3) in auto)
  with assms(2) show ?thesis by (simp add: ties_registered_def)
qed

lemma dispatch_order_updatePriorities:
  assumes "consistent s" and "l' < list_count s"
  shows "dispatch_order (updatePriorities l' s) l = dispatch_order s l"
proof (cases "l = l'")
  case False
  then show ?thesis by (simp add: dispatch_order_def updatePriorities_fields)
next
  case True
  have "dispatch_order (updatePriorities l' s) l' =
        sort_key (\<lambda>h. priority (handler_heap s h)) (dispatch_order s l')"
    using updatePriorities_order [OF assms]
    by (simp add: dispatch_order_def [of "updatePriorities l' s"] updatePriorities_fields)
  also have "\<dots> = dispatch_order s l'"
    by (rule sort_key_id_if_sorted) (rule dispatch_order_props(1))
  finally show ?thesis using True by simp
qed

lemma dispatch_order_purge: "dispatch_order (purge l' s) l = dispatch_order s l"
  by (simp add: dispatch_order_def purge_fields)

lemma ties_updatePriorities:
  "consistent s \<Longrightarrow> l' < list_count s \<Longrightarrow>
   ties_registered (updatePriorities l' s) l = ties_registered s l"
  by (simp add: ties_registered_iff dispatch_order_updatePriorities updatePriorities_fields)

lemma ties_purge: "ties_registered (purge l' s) l = ties_registered s l"
  by (simp add: ties_registered_iff dispatch_order_purge purge_fields)

lemma ties_visit: "ties_registered s l \<Longrightarrow> ties_registered (snd (visit pre hs as s)) l"
  by (erule ties_registered_mono) (simp_all add: visit_cancelled_mono)

lemma ties_pass:
  "consistent s \<Longrightarrow> l' < list_count s \<Longrightarrow> ties_registered s l \<Longrightarrow>
   ties_registered (snd (pass pre l' as s)) l"
  by (simp add: pass_def Let_def ties_visit ties_updatePriorities)

lemma ties_cancel: "ties_registered s l \<Longrightarrow> ties_registered (cancel h s) l"
  by (erule ties_registered_mono) (simp_all add: cancel_fields)

lemma ties_fold_cancel: "ties_registered s l \<Longrightarrow> ties_registered (fold cancel hs s) l"
  by (induction hs arbitrary: s) (simp_all add: ties_cancel)

lemma ties_setOnce: "ties_registered s l \<Longrightarrow> ties_registered (setOnce h v s) l"
  by (erule ties_registered_mono) (simp_all add: setOnce_fields)

lemma ties_setPriority_other:
  assumes "consistent s" and "l < list_count s" and "l \<noteq> list_ref (handler_heap s h)"
    and "ties_registered s l"
  shows "ties_registered (setPriority h v s) l"
proof (rule ties_registered_mono [OF assms(4)])
  show "handlers (list_heap (setPriority h v s) l) = handlers (list_heap s l)"
    by (simp add: setPriority_fields)
  from assms(1) have "owned s" by (simp add: consistent_def)
  from ownedD [OF this assms(2)] assms(3)
  have "h \<notin> set (handlers (list_heap s l))" by auto
  then show "\<forall>x\<in>set (handlers (list_heap s l)).
      priority (handler_heap (setPriority h v s) x) = priority (handler_heap s x) \<and>
      (cancelled (handler_heap s x) \<longrightarrow> cancelled (handler_heap (setPriority h v s) x))"
    by (auto simp: setPriority_fields)
qed

lemma ties_createHandler:
  assumes "consistent s" and "ties_everywhere s"
  shows "ties_everywhere (snd (createHandler r t cb as s))"
proof -
  obtain l s1 where g: "getHandlerList r t True s = (Some l, s1)"
    using getHandlerList_create [of r t s] by auto
  with assms(1) have c1: "consistent s1" and l: "l < list_count s1"
    by (auto dest: consistent_getHandlerList)
  have t1: "ties_everywhere s1"
  proof (cases "lists_of r s t")
    case (Some l')
    with g assms(2) show ?thesis by (simp add: getHandlerList_def)
  next
    case None
    with g assms(2) show ?thesis
      by (cases r)
         (auto simp: getHandlerList_def Let_def ties_everywhere_def ties_registered_def
            new_TriggerHandlerList_def less_Suc_eq)
  qed
  let ?s2 = "snd (addHandler l cb as s1)"
  let ?h = "handler_count s1"
  from c1 have o: "owned s1" by (simp add: consistent_def)
  have "ties_registered ?s2 x" if x: "x < list_count s1" for x
  proof -
    have old: "\<forall>y\<in>set (handlers (list_heap s1 x)). y < ?h"
      using ownedD [OF o x] by auto
    then have same: "\<forall>y\<in>set (handlers (list_heap s1 x)). handler_heap ?s2 y = handler_heap s1 y"
      by (auto simp: addHandler_fields)
    from t1 x have tx: "ties_registered s1 x" by (simp add: ties_everywhere_def)
    show ?thesis
    proof (cases "x = l")
      case False
      from tx show ?thesis
        by (rule ties_registered_mono) (use False same in \<open>simp_all add: addHandler_fields(3)\<close>)
    next
      case True
      let ?R = "\<lambda>H a b. priority (H a) = priority (H b) \<longrightarrow> a < b"
      have f: "filter (\<lambda>h. \<not> cancelled (handler_heap ?s2 h)) (handlers (list_heap s1 x)) =
               filter (\<lambda>h. \<not> cancelled (handler_heap s1 h)) (handlers (list_heap s1 x))"
        using same by (auto intro: filter_cong)
      from tx have "sorted_wrt (?R (handler_heap s1))
          (filter (\<lambda>h. \<not> cancelled (handler_heap s1 h)) (handlers (list_heap s1 x)))"
        by (simp add: ties_registered_def)
      then have "sorted_wrt (?R (handler_heap ?s2))
          (filter (\<lambda>h. \<not> cancelled (handler_heap s1 h)) (handlers (list_heap s1 x)))"
        by (rule sorted_wrt_mono_rel [rotated]) (use same in auto)
      moreover have "\<not> cancelled (handler_heap ?s2 ?h)"
        by (simp add: addHandler_fields new_TriggerHandler_def)
      ultimately show ?thesis
        using True old f
        by (auto simp: ties_registered_def addHandler_fields(3) sorted_wrt_append)
    qed
  qed
  with g show ?thesis
    by (simp add: createHandler_def ties_everywhere_def addHandler_fields)
qed

lemma ties_everywhere_pass:
  "consistent s \<Longrightarrow> ties_everywhere s \<Longrightarrow> l' < list_count s \<Longrightarrow>
   ties_everywhere (snd (pass pre l' as s))"
  by (simp add: ties_everywhere_def pass_fields ties_pass)

lemma ties_everywhere_purge: "ties_everywhere s \<Longrightarrow> ties_everywhere (purge l s)"
  by (simp add: ties_everywhere_def purge_fields ties_purge)

lemma ties_everywhere_dispatch:
  assumes "consistent s" and "ties_everywhere s" and "is_dispatch x"
  shows "ties_everywhere (step x s)"
proof -
  from assms(1) have o: "owned s" by (simp add: consistent_def)
  have b1: "l < list_count s" if "handlers_map s t = Some l" for t l
    using o that by (auto simp: owned_def)
  have b2: "l < list_count s" if "modifiers_map s t = Some l" for t l
    using o that by (auto simp: owned_def)
  from dispatch_step_cases [OF assms(3), of s] show ?thesis
  proof (cases x)
    case (Call t as)
    then show ?thesis
      using assms b1 [of t]
      by (cases "handlers_map s t")
         (simp_all add: Trigger_def snd_Trigger_execute ties_everywhere_pass)
  next
    case (Execute t as)
    then show ?thesis
      using assms b1 [of t]
      by (cases "handlers_map s t") (simp_all add: snd_Trigger_execute ties_everywhere_pass)
  next
    case (Poll t as)
    then show ?thesis
      using assms b1 [of t]
      by (cases "handlers_map s t")
         (simp_all add: snd_Trigger_poll ties_everywhere_pass ties_everywhere_purge
            split: sum.splits)
  next
    case (Modify v t as)
    then show ?thesis
      using assms b2 [of t]
      by (cases "modifiers_map s t") (simp_all add: snd_Trigger_modify ties_everywhere_pass)
  qed (use assms(3) in simp_all)
qed

lemma ties_step:
  assumes "consistent s" and "ties_everywhere s" and "priorities_keep_ties (x # xs) s"
  shows "ties_everywhere (step x s) \<and> priorities_keep_ties xs (step x s)"
proof (cases "is_dispatch x")
  case True
  with assms(3) have "priorities_keep_ties xs (step x s)" by (cases x) simp_all
  with ties_everywhere_dispatch [OF assms(1,2) True] show ?thesis by simp
next
  case nd: False
  show ?thesis
  proof (cases x)
    case (CreateHandler t cb as)
    with assms ties_createHandler [OF assms(1,2)] show ?thesis
      by (simp add: Trigger_createHandler_def)
  next
    case (CreateModifier t cb as)
    with assms ties_createHandler [OF assms(1,2)] show ?thesis
      by (simp add: Trigger_createModifier_def)
  next
    case (ClearTrigger t)
    with assms show ?thesis
      by (auto simp: snd_clearTrigger ties_everywhere_def fold_cancel_handlers ties_fold_cancel
            split: option.splits)
  next
    case (Cancel h)
    with assms show ?thesis
      by (auto simp: ties_everywhere_def cancel_fields ties_cancel)
  next
    case (SetPriority h v)
    show ?thesis
    proof (cases "h < handler_count s")
      case False
      with SetPriority assms show ?thesis by simp
    next
      case True
      have "ties_registered (setPriority h v s) l" if "l < list_count s" for l
      proof (cases "l = list_ref (handler_heap s h)")
        case True
        with assms(3) SetPriority \<open>h < handler_count s\<close> show ?thesis by simp
      next
        case False
        with assms that show ?thesis
          by (simp add: ties_setPriority_other ties_everywhere_def)
      qed
      with True SetPriority assms(3) show ?thesis
        by (simp add: ties_everywhere_def setPriority_fields)
    qed
  next
    case (SetOnce h v)
    with assms show ?thesis
      by (auto simp: ties_everywhere_def setOnce_fields ties_setOnce)
  qed (use nd in simp_all)
qed

lemma ties_fold:
  "consistent s \<Longrightarrow> ties_everywhere s \<Longrightarrow> priorities_keep_ties ops s \<Longrightarrow>
   ties_everywhere (fold step ops s)"
proof (induction ops arbitrary: s)
  case Nil
  then show ?case by simp
next
  case (Cons x xs)
  from ties_step [OF Cons.prems] consistent_step [OF Cons.prems(1), of x] Cons.IH [of "step x s"]
  show ?case by simp
qed

lemma ties_run:
  assumes "priorities_keep_ties ops init"
  shows "ties_everywhere (run ops init)"
proof -
  have "ties_everywhere (init :: 'a state)"
    by (simp add: ties_everywhere_def init_def)
  with assms show ?thesis
    unfolding run_def by (intro ties_fold consistent_init)
qed

text \<open>A call of \<open>setPriority\<close> on a handler whose array is in registration order keeps the
  condition, whatever the priority.\<close>

lemma ties_setPriority_sorted:
  assumes "consistent s" and "l < list_count s" and "sorted (handlers (list_heap s l))"
  shows "ties_registered (setPriority h v s) l"
proof -
  from assms(1) have "consistent (setPriority h v s)" by (rule consistent_setPriority)
  moreover have "l < list_count (setPriority h v s)"
    "sorted (handlers (list_heap (setPriority h v s) l))"
    using assms(2,3) by (simp_all add: setPriority_fields)
  ultimately show ?thesis by (rule ties_registered_sorted)
qed

subsection \<open>The handlers that a dispatch calls\<close>






section \<open>The claims\<close>

text \<open>
  C1 (the code does otherwise). The claim: \<open>modifyChain\<close> folds left to right, every handler
  receiving the running value, so that two doubling handlers turn 10 into 40. The loop of
  \<open>TriggerHandlerList.modify\<close> calls \<open>handler.modify(input, args)\<close>: every handler receives the
  initial value, and the result is what the last handler makes of it. With two doubling
  handlers on a key, \<open>Trigger.modify(10, key)\<close> returns 20, and the trace shows that both
  handlers were called with 10.
\<close>

theorem modify_two_doublers:
  "fst (Trigger_modify (Num 10) ''K'' []
          (run [CreateModifier ''K'' times2 [], CreateModifier ''K'' times2 []] init))
     = Inr (Num 20) \<and>
   calls (snd (Trigger_modify (Num 10) ''K'' []
          (run [CreateModifier ''K'' times2 [], CreateModifier ''K'' times2 []] init)))
     = [(0, [Num 10]), (1, [Num 10])]"
  by (simp add: exec_defs)

text \<open>
  C2 (the code does otherwise). The claim: \<open>clearTrigger\<close> is total for every key, clears the
  lists that are present, and removes both map entries. In the code \<open>clearTrigger\<close> throws on
  every input: for a key without a broadcast list it reads \<open>.clear\<close> of \<open>null\<close>; for a key
  with one, \<open>TriggerHandlerList.clear\<close> cancels the handlers and then calls the method
  \<open>clear\<close> of an array, which does not exist. The statements that delete the map entries are
  never reached: the broadcast list stays registered, and the transform list is not touched,
  so a transform handler registered before the call still fires after it.
\<close>

theorem clearTrigger_throws_on_every_input:
  "(\<exists>e. fst (clearTrigger t s) = Inl e) \<and>
   handlers_map (snd (clearTrigger t s)) = handlers_map s \<and>
   modifiers_map (snd (clearTrigger t s)) = modifiers_map s \<and>
   fst (clearTrigger ''k'' (init :: string state)) = Inl (TypeError ''cannot read properties of null'') \<and>
   fst (clearTrigger ''k'' (run [CreateHandler ''k'' (returning (Str ''old'')) []] init))
     = Inl (TypeError ''is not a function'') \<and>
   handlers_map (snd (clearTrigger ''k''
       (run [CreateHandler ''k'' (returning (Str ''old'')) []] init))) ''k'' = Some 0 \<and>
   fst (Trigger_modify (Num 5) ''k'' []
          (snd (clearTrigger ''k''
             (run [CreateHandler ''k'' (returning (Str ''old'')) [],
                   CreateModifier ''k'' times2 []] init)))) = Inr (Num 10)"
proof -
  have "handlers_map (snd (clearTrigger t s)) = handlers_map s \<and>
     modifiers_map (snd (clearTrigger t s)) = modifiers_map s"
    by (simp add: snd_clearTrigger fold_cancel_maps split: option.splits)
  moreover have "\<exists>e. fst (clearTrigger t s) = Inl e"
    by (simp add: clearTrigger_throws split: option.splits)
  moreover have "fst (clearTrigger ''k'' (init :: string state)) = Inl (TypeError ''cannot read properties of null'')"
    by (simp add: exec_defs)
  moreover have "fst (clearTrigger ''k'' (run [CreateHandler ''k'' (returning (Str ''old'')) []] init))
     = Inl (TypeError ''is not a function'')"
    by (simp add: exec_defs)
  moreover have "handlers_map (snd (clearTrigger ''k''
       (run [CreateHandler ''k'' (returning (Str ''old'')) []] init))) ''k'' = Some 0"
    by (simp add: exec_defs)
  moreover have "fst (Trigger_modify (Num 5) ''k'' []
          (snd (clearTrigger ''k''
             (run [CreateHandler ''k'' (returning (Str ''old'')) [],
                   CreateModifier ''k'' times2 []] init)))) = Inr (Num 10)"
    by (simp add: exec_defs)
  ultimately show ?thesis by blast
qed

text \<open>
  C3 (corrected). The claim: a dispatch runs the handlers by ascending priority, and handlers
  of equal priority in registration order. The first part holds. The second does not: the
  sort is stable with respect to the order the array has when it is sorted, and the code keeps
  no record of the registration order. Register \<open>A\<close>, then \<open>B\<close>, give \<open>B\<close> priority \<open>-1\<close>,
  dispatch (the array becomes \<open>B, A\<close>), and give \<open>B\<close> priority 0 again: both handlers have
  priority 0, \<open>A\<close> was registered first, and \<open>poll\<close> returns \<open>[B, A]\<close>.
\<close>

theorem equal_priority_not_in_registration_order:
  "priority (handler_heap (run [CreateHandler ''x'' (returning (Str ''A'')) [],
                                CreateHandler ''x'' (returning (Str ''B'')) [],
                                SetPriority 1 (- 1), Execute ''x'' [], SetPriority 1 0]
                             (init :: string state)) 0) = 0 \<and>
   priority (handler_heap (run [CreateHandler ''x'' (returning (Str ''A'')) [],
                                CreateHandler ''x'' (returning (Str ''B'')) [],
                                SetPriority 1 (- 1), Execute ''x'' [], SetPriority 1 0]
                             (init :: string state)) 1) = 0 \<and>
   fst (Trigger_poll ''x'' [] (run [CreateHandler ''x'' (returning (Str ''A'')) [],
                                CreateHandler ''x'' (returning (Str ''B'')) [],
                                SetPriority 1 (- 1), Execute ''x'' [], SetPriority 1 0]
                             (init :: string state)))
     = Inr [Str ''B'', Str ''A'']"
  by (simp add: exec_defs)

text \<open>
  C3 as amended, for callbacks that do not call into the module while a pass is running (they
  do not cancel, register, set priorities or dispatch from inside a handler). In every state
  \<open>s\<close> that a program \<open>ops\<close> reaches, a dispatch (\<open>execute\<close>, \<open>Trigger\<close> or \<open>poll\<close>) on a key
  with list \<open>l\<close> calls the handlers of \<open>dispatch_order s l\<close>, in that order, up to and
  including the first one that throws; the dispatch throws exactly when one of them throws,
  otherwise all of them are called and \<open>poll\<close> returns their results in that order. In this
  order every handler of the array that is not cancelled occurs once; a handler of strictly
  lower priority comes strictly before one of higher priority, whatever the registration
  order; handlers of equal priority keep the order they have in the array at the time of the
  dispatch. Equal priorities run in registration order exactly when the handlers of the array
  that are not cancelled and have the same priority stand in registration order. Only
  \<open>setPriority\<close> can take that condition away: it holds in every state reached by a program
  whose calls of \<open>setPriority\<close> each leave it intact, as every call does that is made while
  the array is in registration order, for instance before the first dispatch.
\<close>

theorem dispatch_in_stable_priority_order:
  assumes "s = run ops init" and "handlers_map s K = Some l"
  shows "invoked_since (length (calls s)) (snd (Trigger_execute K as s)) = pass_order [] l as s \<and>
         invoked_since (length (calls s)) (snd (Trigger K as s)) = pass_order [] l as s \<and>
         invoked_since (length (calls s)) (snd (Trigger_poll K as s)) = pass_order [] l as s \<and>
         (isl (fst (Trigger_execute K as s)) \<longleftrightarrow>
            (\<exists>h\<in>set (dispatch_order s l). throws_at [] as s h)) \<and>
         (isl (fst (Trigger_poll K as s)) \<longleftrightarrow>
            (\<exists>h\<in>set (dispatch_order s l). throws_at [] as s h)) \<and>
         (\<exists>zs. dispatch_order s l = pass_order [] l as s @ zs) \<and>
         ((\<forall>h\<in>set (dispatch_order s l). \<not> throws_at [] as s h) \<longrightarrow>
            pass_order [] l as s = dispatch_order s l) \<and>
         (Trigger_poll K as s = (Inr vs, s'') \<longrightarrow>
            map Inr vs = map (\<lambda>h. call (callback (handler_heap s h)) (args (handler_heap s h) @ as))
                           (dispatch_order s l)) \<and>
         distinct (dispatch_order s l) \<and>
         set (dispatch_order s l) =
           {h \<in> set (handlers (list_heap s l)). \<not> cancelled (handler_heap s h)} \<and>
         sorted (map (\<lambda>h. priority (handler_heap s h)) (dispatch_order s l)) \<and>
         (\<forall>i j. i < length (dispatch_order s l) \<and> j < length (dispatch_order s l) \<and>
                priority (handler_heap s (dispatch_order s l ! i)) <
                priority (handler_heap s (dispatch_order s l ! j)) \<longrightarrow> i < j) \<and>
         (\<forall>p. filter (\<lambda>h. priority (handler_heap s h) = p) (dispatch_order s l) =
              filter (\<lambda>h. priority (handler_heap s h) = p)
                (filter (\<lambda>h. \<not> cancelled (handler_heap s h)) (handlers (list_heap s l)))) \<and>
         (ties_registered s l \<longleftrightarrow>
            sorted_wrt (\<lambda>a b. priority (handler_heap s a) < priority (handler_heap s b) \<or>
                  (priority (handler_heap s a) = priority (handler_heap s b) \<and> a < b))
              (dispatch_order s l)) \<and>
         (priorities_keep_ties ops init \<longrightarrow> ties_registered s l) \<and>
         (sorted (handlers (list_heap s l)) \<longrightarrow>
            ties_registered s l \<and> ties_registered (setPriority h v s) l) \<and>
         (list_all (\<lambda>x. \<not> is_dispatch x) ops \<longrightarrow> sorted (handlers (list_heap s l)))"
proof -
  from assms(1) have c: "consistent s" by (simp add: consistent_reachable)
  with assms(2) have l: "l < list_count s" by (auto simp: consistent_defs)
  note tr = pass_trace_any [OF c l, where pre = "[]" and as = as]
  note inv = invoked_since_pass(1,2) [OF c l, where pre = "[]" and as = as]
  have a1: "invoked_since (length (calls s)) (snd (Trigger_execute K as s)) = pass_order [] l as s"
    and a2: "invoked_since (length (calls s)) (snd (Trigger K as s)) = pass_order [] l as s"
    using assms(2) inv by (simp_all add: Trigger_def snd_Trigger_execute)
  have a3: "invoked_since (length (calls s)) (snd (Trigger_poll K as s)) = pass_order [] l as s"
    using assms(2) inv by (simp add: snd_Trigger_poll split: sum.splits)
  have b1: "isl (fst (Trigger_execute K as s)) \<longleftrightarrow>
            (\<exists>h\<in>set (dispatch_order s l). throws_at [] as s h)"
    using assms(2) tr by (auto simp: Trigger_execute_pass split: prod.splits sum.splits)
  have b2: "isl (fst (Trigger_poll K as s)) \<longleftrightarrow>
            (\<exists>h\<in>set (dispatch_order s l). throws_at [] as s h)"
    using assms(2) tr by (auto simp: Trigger_poll_pass split: prod.splits sum.splits)
  have b3: "\<exists>zs. dispatch_order s l = pass_order [] l as s @ zs"
    unfolding pass_order_def by (rule upto_first_prefix)
  have b4: "(\<forall>h\<in>set (dispatch_order s l). \<not> throws_at [] as s h) \<longrightarrow>
            pass_order [] l as s = dispatch_order s l"
    by (simp add: pass_order_def upto_first_none)
  have po: "Trigger_poll K as s = (Inr vs, s'') \<longrightarrow>
            map Inr vs = map (\<lambda>h. call (callback (handler_heap s h)) (args (handler_heap s h) @ as))
                           (dispatch_order s l)"
  proof
    assume e: "Trigger_poll K as s = (Inr vs, s'')"
    obtain r s1 where p: "pass [] l as s = (r, s1)" by force
    with e assms(2) have r: "r = Inr vs"
      by (cases r) (auto simp: Trigger_poll_pass)
    from p r pass_trace [OF c l, of "[]" as vs s1]
    show "map Inr vs = map (\<lambda>h. call (callback (handler_heap s h)) (args (handler_heap s h) @ as))
                           (dispatch_order s l)"
      by simp
  qed
  have reg: "list_all (\<lambda>x. \<not> is_dispatch x) ops \<longrightarrow> sorted (handlers (list_heap s l))"
    using registration_order_run [of ops] l assms(1)
    by (auto simp: registration_order_def)
  have keep: "priorities_keep_ties ops init \<longrightarrow> ties_registered s l"
    using ties_run [of ops] l assms(1) by (auto simp: ties_everywhere_def)
  have srt: "sorted (handlers (list_heap s l)) \<longrightarrow>
            ties_registered s l \<and> ties_registered (setPriority h v s) l"
    using ties_registered_sorted [OF c l] ties_setPriority_sorted [OF c l] by blast
  have before: "\<forall>i j. i < length (dispatch_order s l) \<and> j < length (dispatch_order s l) \<and>
                priority (handler_heap s (dispatch_order s l ! i)) <
                priority (handler_heap s (dispatch_order s l ! j)) \<longrightarrow> i < j"
    using dispatch_order_before [of _ s l] by blast
  from a1 a2 a3 b1 b2 b3 b4 po reg keep srt before ties_registered_iff [of s l]
    dispatch_order_distinct [OF c l] dispatch_order_props [where s = s and l = l]
  show ?thesis by blast
qed

theorem dispatch_in_stable_priority_order_witness:
  "handlers_map (run [CreateHandler ''x'' (returning (Str ''A'')) [], SetPriority 0 5,
                      CreateHandler ''x'' (returning (Str ''B'')) [], SetPriority 1 1,
                      CreateHandler ''x'' (returning (Str ''C'')) [], SetPriority 2 5,
                      Poll ''x'' []]
                   (init :: string state)) ''x'' = Some 0 \<and>
   priorities_keep_ties
     [CreateHandler ''x'' (returning (Str ''A'')) [], SetPriority 0 5,
      CreateHandler ''x'' (returning (Str ''B'')) [], SetPriority 1 1,
      CreateHandler ''x'' (returning (Str ''C'')) [], SetPriority 2 5,
      Poll ''x'' []] (init :: string state) \<and>
   handlers (list_heap (run [CreateHandler ''x'' (returning (Str ''A'')) [], SetPriority 0 5,
                      CreateHandler ''x'' (returning (Str ''B'')) [], SetPriority 1 1,
                      CreateHandler ''x'' (returning (Str ''C'')) [], SetPriority 2 5,
                      Poll ''x'' []]
                   (init :: string state)) 0) = [1, 0, 2] \<and>
   ties_registered (run [CreateHandler ''x'' (returning (Str ''A'')) [], SetPriority 0 5,
                      CreateHandler ''x'' (returning (Str ''B'')) [], SetPriority 1 1,
                      CreateHandler ''x'' (returning (Str ''C'')) [], SetPriority 2 5,
                      Poll ''x'' []]
                   (init :: string state)) 0 \<and>
   fst (Trigger_poll ''x'' []
         (run [CreateHandler ''x'' (returning (Str ''A'')) [], SetPriority 0 5,
               CreateHandler ''x'' (returning (Str ''B'')) [], SetPriority 1 1,
               CreateHandler ''x'' (returning (Str ''C'')) [], SetPriority 2 5,
               Poll ''x'' []]
            (init :: string state))) = Inr [Str ''B'', Str ''A'', Str ''C''] \<and>
   invoked_since 3 (snd (Trigger_poll ''x'' []
         (run [CreateHandler ''x'' (returning (Str ''A'')) [], SetPriority 0 5,
               CreateHandler ''x'' (returning (Str ''B'')) [], SetPriority 1 1,
               CreateHandler ''x'' (returning (Str ''C'')) [], SetPriority 2 5,
               Poll ''x'' []]
            (init :: string state)))) = [1, 0, 2]"
proof -
  let ?ops = "[CreateHandler ''x'' (returning (Str ''A'')) [], SetPriority 0 5,
               CreateHandler ''x'' (returning (Str ''B'')) [], SetPriority 1 1,
               CreateHandler ''x'' (returning (Str ''C'')) [], SetPriority 2 5,
               Poll ''x'' []]"
  let ?s = "run ?ops (init :: string state)"
  have m: "handlers_map ?s ''x'' = Some 0" and n: "length (calls ?s) = 3"
    and a: "handlers (list_heap ?s 0) = [1, 0, 2]"
    and p: "fst (Trigger_poll ''x'' [] ?s) = Inr [Str ''B'', Str ''A'', Str ''C'']"
    and d: "pass_order [] 0 [] ?s = [1, 0, 2]"
    by (simp_all add: exec_defs dispatch_order_def pass_order_def throws_at_def)
  have k: "priorities_keep_ties ?ops (init :: string state)"
    by (simp add: exec_defs ties_registered_def)
  note th = dispatch_in_stable_priority_order [OF refl m, where as = "[]"]
  from th k have t: "ties_registered ?s 0" by blast
  from th have "invoked_since (length (calls ?s)) (snd (Trigger_poll ''x'' [] ?s)) =
      pass_order [] 0 [] ?s" by blast
  with m n a p d k t show ?thesis by simp
qed




text \<open>
  C5. A cancelled handler is never invoked again. If the handler at address \<open>h\<close> is cancelled
  (by \<open>cancel()\<close>, by its once-flag or by \<open>clear()\<close>), then \<open>Trigger.execute\<close>, \<open>Trigger\<close>,
  \<open>Trigger.poll\<close> and \<open>Trigger.modify\<close> on any key leave the number of calls of its callback
  unchanged and leave it cancelled, whether or not it is still in its list's array; and for an
  allocated handler the same holds after any program over the public interface.
\<close>

theorem cancelled_handler_never_invoked:
  assumes "cancelled (handler_heap s h)"
  shows "invocations h (snd (Trigger_execute K as s)) = invocations h s \<and>
         invocations h (snd (Trigger K as s)) = invocations h s \<and>
         invocations h (snd (Trigger_poll K as s)) = invocations h s \<and>
         invocations h (snd (Trigger_modify v K as s)) = invocations h s \<and>
         cancelled (handler_heap (snd (Trigger_execute K as s)) h) \<and>
         cancelled (handler_heap (snd (Trigger_poll K as s)) h) \<and>
         cancelled (handler_heap (snd (Trigger_modify v K as s)) h) \<and>
         (h < handler_count s \<longrightarrow>
            invocations h (run ops s) = invocations h s \<and> cancelled (handler_heap (run ops s) h))"
proof -
  have "h < handler_count s \<longrightarrow>
          invocations h (run ops s) = invocations h s \<and> cancelled (handler_heap (run ops s) h)"
    using assms spent_run [of h "invocations h s" s ops] by (simp add: spent_def)
  with assms show ?thesis
    by (simp add: Trigger_def snd_Trigger_execute snd_Trigger_poll snd_Trigger_modify
          pass_skips_cancelled pass_cancelled_mono purge_fields
          split: option.splits sum.splits)
qed

theorem cancelled_handler_never_invoked_witness:
  "cancelled (handler_heap (run [CreateHandler ''k'' (returning (Str ''a'')) [], Cancel 0] init) 0) \<and>
   handlers (list_heap (run [CreateHandler ''k'' (returning (Str ''a'')) [], Cancel 0] init) 0) = [0] \<and>
   invocations 0 (snd (Trigger_execute ''k'' []
      (run [CreateHandler ''k'' (returning (Str ''a'')) [], Cancel 0] init))) = 0 \<and>
   invocations 0 (snd (Trigger_poll ''k'' []
      (run [CreateHandler ''k'' (returning (Str ''a'')) [], Cancel 0] init))) = 0"
proof -
  let ?s = "run [CreateHandler ''k'' (returning (Str ''a'')) [], Cancel 0] (init :: string state)"
  have c: "cancelled (handler_heap ?s 0)" and l: "handlers (list_heap ?s 0) = [0]"
    and i: "invocations 0 ?s = 0"
    by (simp_all add: exec_defs)
  from cancelled_handler_never_invoked [OF c, of "''k''" "[]"] i
  have "invocations 0 (snd (Trigger_execute ''k'' [] ?s)) = 0"
    and "invocations 0 (snd (Trigger_poll ''k'' [] ?s)) = 0"
    by simp_all
  with c l show ?thesis by simp
qed

text \<open>
  C6. Dispatching a key that has no handler list is not an error and changes nothing:
  \<open>Trigger.execute\<close> (and \<open>Trigger\<close>) return normally, \<open>Trigger.poll\<close> returns the empty
  sequence and \<open>Trigger.modify\<close> returns its input, for every value. \<open>Trigger.modify\<close> also
  returns its input when the key has a transform list in which every handler is cancelled.
\<close>

theorem dispatch_without_handlers:
  "(handlers_map s K = None \<longrightarrow>
      Trigger_execute K as s = (Inr (), s) \<and> Trigger K as s = (Inr (), s) \<and>
      Trigger_poll K as s = (Inr [], s)) \<and>
   (modifiers_map s K = None \<longrightarrow> Trigger_modify v K as s = (Inr v, s)) \<and>
   (modifiers_map s K = Some l \<and>
    (\<forall>h\<in>set (handlers (list_heap s l)). cancelled (handler_heap s h)) \<longrightarrow>
      fst (Trigger_modify v K as s) = Inr v \<and>
      calls (snd (Trigger_modify v K as s)) = calls s)"
  by (simp add: Trigger_def Trigger_execute_pass Trigger_poll_pass Trigger_modify_pass
        pass_all_cancelled updatePriorities_fields)

theorem dispatch_without_handlers_witness:
  "handlers_map (init :: string state) ''k'' = None \<and>
   modifiers_map (init :: string state) ''k'' = None \<and>
   Trigger_execute ''k'' [] (init :: string state) = (Inr (), init) \<and>
   Trigger_poll ''k'' [] (init :: string state) = (Inr [], init) \<and>
   Trigger_modify (Num 7) ''k'' [] (init :: string state) = (Inr (Num 7), init) \<and>
   modifiers_map (run [CreateModifier ''k'' times2 [], Cancel 0] init) ''k'' = Some 0 \<and>
   fst (Trigger_modify (Num 7) ''k'' [] (run [CreateModifier ''k'' times2 [], Cancel 0] init))
     = Inr (Num 7)"
proof -
  let ?s = "run [CreateModifier ''k'' times2 [], Cancel 0] (init :: string state)"
  have n: "handlers_map (init :: string state) ''k'' = None"
    "modifiers_map (init :: string state) ''k'' = None"
    by (simp_all add: init_def)
  have m: "modifiers_map ?s ''k'' = Some 0"
    and c: "\<forall>h\<in>set (handlers (list_heap ?s 0)). cancelled (handler_heap ?s h)"
    by (simp_all add: exec_defs)
  from dispatch_without_handlers [where s = "init :: string state" and K = "''k''" and v = "Num 7" and as = "[]"] n
  have "Trigger_execute ''k'' [] (init :: string state) = (Inr (), init)"
    "Trigger_poll ''k'' [] (init :: string state) = (Inr [], init)"
    "Trigger_modify (Num 7) ''k'' [] (init :: string state) = (Inr (Num 7), init)"
    by simp_all
  moreover from dispatch_without_handlers [where s = ?s and K = "''k''" and v = "Num 7" and as = "[]" and l = 0] m c
  have "fst (Trigger_modify (Num 7) ''k'' [] ?s) = Inr (Num 7)"
    by simp
  ultimately show ?thesis using n m by simp
qed

text \<open>
  C7 (corrected). The claim: \<open>poll\<close> always forces a purge and a sort before it builds the
  traversal order, even when the needs-priority-update bit is clear. \<open>poll\<close> does call the
  resort step unconditionally, but the step itself returns at once when the bit is clear.
  After registering a handler and cancelling it, the bit is clear and the needs-purge bit is
  set; the resort step with which \<open>poll\<close> starts changes nothing: the array that \<open>poll\<close>
  traverses still holds the cancelled handler, and the needs-purge bit is still set.
\<close>

theorem poll_does_not_force_purge:
  "\<not> needsPriorityUpdate
       (list_heap (run [CreateHandler ''k'' (returning (Str ''a'')) [], Cancel 0]
                    (init :: string state)) 0) \<and>
   cancelled
       (handler_heap (run [CreateHandler ''k'' (returning (Str ''a'')) [], Cancel 0]
                    (init :: string state)) 0) \<and>
   handlers
       (list_heap (updatePriorities 0
          (run [CreateHandler ''k'' (returning (Str ''a'')) [], Cancel 0]
                    (init :: string state))) 0) = [0] \<and>
   needsPurge
       (list_heap (updatePriorities 0
          (run [CreateHandler ''k'' (returning (Str ''a'')) [], Cancel 0]
                    (init :: string state))) 0)"
  by (simp add: exec_defs)

text \<open>
  C7 as amended. \<open>poll\<close> on list \<open>l\<close> is the resort step, the traversal of the array as the
  resort step leaves it, and, when no callback has thrown, a purge. In a state that a program
  reaches: when the needs-priority-update bit is clear the resort step changes nothing; when
  it is set the resort step leaves in the array the handlers that are not cancelled, stably
  sorted by priority, and clears both bits; in both cases the handlers of the array that are
  not cancelled are in stable priority order. After a \<open>poll\<close> that returns normally the
  needs-purge bit is clear and the array holds no cancelled handler, so that the handlers
  cancelled during the pass (the once-handlers) are gone.
\<close>

theorem poll_resorts_if_stale_and_purges_after:
  assumes "s = run ops init" and "handlers_map s K = Some l"
  shows "TriggerHandlerList_poll l as s =
           (case visit [] (handlers (list_heap (updatePriorities l s) l)) as (updatePriorities l s) of
              (Inl e, s1) \<Rightarrow> (Inl e, s1)
            | (Inr vs, s1) \<Rightarrow> (Inr vs, purge l s1)) \<and>
         (\<not> needsPriorityUpdate (list_heap s l) \<longrightarrow> updatePriorities l s = s) \<and>
         (needsPriorityUpdate (list_heap s l) \<longrightarrow>
            handlers (list_heap (updatePriorities l s) l) = dispatch_order s l \<and>
            \<not> needsPriorityUpdate (list_heap (updatePriorities l s) l) \<and>
            \<not> needsPurge (list_heap (updatePriorities l s) l)) \<and>
         filter (\<lambda>h. \<not> cancelled (handler_heap s h)) (handlers (list_heap (updatePriorities l s) l))
           = dispatch_order s l \<and>
         (Trigger_poll K as s = (Inr vs, s') \<longrightarrow>
            \<not> needsPurge (list_heap s' l) \<and>
            (\<forall>h\<in>set (handlers (list_heap s' l)). \<not> cancelled (handler_heap s' h)))"
proof -
  from assms(1) have c: "consistent s" by (simp add: consistent_reachable)
  with assms(2) have l: "l < list_count s" by (auto simp: consistent_defs)
  have a: "TriggerHandlerList_poll l as s =
           (case visit [] (handlers (list_heap (updatePriorities l s) l)) as (updatePriorities l s) of
              (Inl e, s1) \<Rightarrow> (Inl e, s1)
            | (Inr vs, s1) \<Rightarrow> (Inr vs, purge l s1))"
    by (simp add: TriggerHandlerList_poll_pass pass_def Let_def)
  have b: "\<not> needsPriorityUpdate (list_heap s l) \<longrightarrow> updatePriorities l s = s"
    by (simp add: updatePriorities_idle)
  have d: "filter (\<lambda>h. \<not> cancelled (handler_heap s h)) (handlers (list_heap (updatePriorities l s) l))
           = dispatch_order s l"
    using c l by (rule updatePriorities_order)
  have e: "needsPriorityUpdate (list_heap s l) \<longrightarrow>
            handlers (list_heap (updatePriorities l s) l) = dispatch_order s l \<and>
            \<not> needsPriorityUpdate (list_heap (updatePriorities l s) l) \<and>
            \<not> needsPurge (list_heap (updatePriorities l s) l)"
  proof
    assume n: "needsPriorityUpdate (list_heap s l)"
    from c l have "\<not> needsPurge (list_heap s l) \<Longrightarrow>
        \<forall>h\<in>set (handlers (list_heap s l)). \<not> cancelled (handler_heap s h)"
      by (auto simp: consistent_defs)
    then have "(if needsPurge (list_heap s l)
        then filter (\<lambda>h. \<not> cancelled (handler_heap s h)) (handlers (list_heap s l))
        else handlers (list_heap s l)) =
        filter (\<lambda>h. \<not> cancelled (handler_heap s h)) (handlers (list_heap s l))"
      by (simp add: filter_all)
    with n show "handlers (list_heap (updatePriorities l s) l) = dispatch_order s l \<and>
            \<not> needsPriorityUpdate (list_heap (updatePriorities l s) l) \<and>
            \<not> needsPurge (list_heap (updatePriorities l s) l)"
      by (simp add: updatePriorities_list dispatch_order_def)
  qed
  have f: "Trigger_poll K as s = (Inr vs, s') \<longrightarrow>
            \<not> needsPurge (list_heap s' l) \<and>
            (\<forall>h\<in>set (handlers (list_heap s' l)). \<not> cancelled (handler_heap s' h))"
  proof
    assume p: "Trigger_poll K as s = (Inr vs, s')"
    obtain r s1 where q: "pass [] l as s = (r, s1)" by force
    with p assms(2) have s': "s' = purge l s1"
      by (cases r) (auto simp: Trigger_poll_pass)
    then have np: "\<not> needsPurge (list_heap s' l)"
      by (simp add: purge_fields)
    from p have "s' = step (Poll K as) s" by simp
    with c have c': "consistent s'" by (simp only: consistent_step)
    from s' l q have "l < list_count s'"
      using pass_fields(2) [of "[]" l as s] by (simp add: purge_fields)
    with c' np show "\<not> needsPurge (list_heap s' l) \<and>
            (\<forall>h\<in>set (handlers (list_heap s' l)). \<not> cancelled (handler_heap s' h))"
      by (simp add: consistent_defs)
  qed
  from a b d e f show ?thesis by blast
qed

theorem poll_resorts_if_stale_and_purges_after_witness:
  "handlers_map (run [CreateHandler ''k'' (returning (Str ''a'')) [], SetOnce 0 True,
                      CreateHandler ''k'' (returning (Str ''b'')) []]
                   (init :: string state)) ''k'' = Some 0 \<and>
   fst (Trigger_poll ''k'' []
          (run [CreateHandler ''k'' (returning (Str ''a'')) [], SetOnce 0 True,
                CreateHandler ''k'' (returning (Str ''b'')) []]
             (init :: string state))) = Inr [Str ''a'', Str ''b''] \<and>
   handlers (list_heap (snd (Trigger_poll ''k'' []
          (run [CreateHandler ''k'' (returning (Str ''a'')) [], SetOnce 0 True,
                CreateHandler ''k'' (returning (Str ''b'')) []]
             (init :: string state)))) 0) = [1] \<and>
   \<not> needsPurge (list_heap (snd (Trigger_poll ''k'' []
          (run [CreateHandler ''k'' (returning (Str ''a'')) [], SetOnce 0 True,
                CreateHandler ''k'' (returning (Str ''b'')) []]
             (init :: string state)))) 0) \<and>
   \<not> cancelled (handler_heap (snd (Trigger_poll ''k'' []
          (run [CreateHandler ''k'' (returning (Str ''a'')) [], SetOnce 0 True,
                CreateHandler ''k'' (returning (Str ''b'')) []]
             (init :: string state)))) 1)"
proof -
  let ?s = "run [CreateHandler ''k'' (returning (Str ''a'')) [], SetOnce 0 True,
                 CreateHandler ''k'' (returning (Str ''b'')) []] (init :: string state)"
  let ?s' = "snd (Trigger_poll ''k'' [] ?s)"
  have m: "handlers_map ?s ''k'' = Some 0"
    and p: "fst (Trigger_poll ''k'' [] ?s) = Inr [Str ''a'', Str ''b'']"
    and h: "handlers (list_heap ?s' 0) = [1]"
    by (simp_all add: exec_defs)
  from p have "Trigger_poll ''k'' [] ?s = (Inr [Str ''a'', Str ''b''], ?s')"
    by (metis prod.collapse)
  with poll_resorts_if_stale_and_purges_after [OF refl m, where as = "[]"
      and vs = "[Str ''a'', Str ''b'']" and s' = ?s']
  have "\<not> needsPurge (list_heap ?s' 0) \<and>
        (\<forall>h\<in>set (handlers (list_heap ?s' 0)). \<not> cancelled (handler_heap ?s' h))"
    by blast
  with h have "\<not> needsPurge (list_heap ?s' 0)" "\<not> cancelled (handler_heap ?s' 1)"
    by simp_all
  with m p h show ?thesis by simp
qed

text \<open>
  C8. In every state that a program over the public interface reaches from the initial state,
  a list whose needs-purge bit is clear holds no cancelled handler. Every operation preserves
  this from any state in which the store invariants hold; \<open>cancel\<close> sets the cancelled flag
  and the needs-purge bit of the handler's list, and \<open>purge\<close> leaves the bit clear and, when
  the bit was set, leaves no cancelled handler in the array.
\<close>

theorem needs_purge_clear_means_no_cancelled:
  "purged (run ops init) \<and>
   (consistent s \<longrightarrow> purged (step x s)) \<and>
   cancelled (handler_heap (cancel h s) h) \<and>
   needsPurge (list_heap (cancel h s) (list_ref (handler_heap s h))) \<and>
   \<not> needsPurge (list_heap (purge l s) l) \<and>
   (needsPurge (list_heap s l) \<longrightarrow>
      (\<forall>y\<in>set (handlers (list_heap (purge l s) l)). \<not> cancelled (handler_heap (purge l s) y)))"
proof -
  have "purged (run ops init)"
    using consistent_reachable [of ops] by (simp add: consistent_def)
  moreover have "consistent s \<longrightarrow> purged (step x s)"
    using consistent_step [of s x] by (simp add: consistent_def)
  ultimately show ?thesis
    by (simp add: cancel_fields purge_fields)
qed

theorem needs_purge_clear_means_no_cancelled_witness:
  "0 < list_count (run [CreateHandler ''k'' (returning (Str ''a'')) [],
                        CreateHandler ''k'' (returning (Str ''b'')) [],
                        Cancel 0, Poll ''k'' []] (init :: string state)) \<and>
   \<not> needsPurge (list_heap (run [CreateHandler ''k'' (returning (Str ''a'')) [],
                        CreateHandler ''k'' (returning (Str ''b'')) [],
                        Cancel 0, Poll ''k'' []] (init :: string state)) 0) \<and>
   handlers (list_heap (run [CreateHandler ''k'' (returning (Str ''a'')) [],
                        CreateHandler ''k'' (returning (Str ''b'')) [],
                        Cancel 0, Poll ''k'' []] (init :: string state)) 0) = [1] \<and>
   \<not> cancelled (handler_heap (run [CreateHandler ''k'' (returning (Str ''a'')) [],
                        CreateHandler ''k'' (returning (Str ''b'')) [],
                        Cancel 0, Poll ''k'' []] (init :: string state)) 1)"
proof -
  let ?s = "run [CreateHandler ''k'' (returning (Str ''a'')) [],
                 CreateHandler ''k'' (returning (Str ''b'')) [],
                 Cancel 0, Poll ''k'' []] (init :: string state)"
  have e: "0 < list_count ?s" "\<not> needsPurge (list_heap ?s 0)" "handlers (list_heap ?s 0) = [1]"
    by (simp_all add: exec_defs)
  have "purged ?s"
    using needs_purge_clear_means_no_cancelled by blast
  with e have "\<not> cancelled (handler_heap ?s 1)"
    unfolding purged_def by (metis list.set_intros(1))
  with e show ?thesis by simp
qed

text \<open>
  C9 (the code does otherwise). The claim: a handler registered without a callback is backed by
  the do-nothing default, so dispatching its key does not throw. The field initialiser is
  \<open>#callback = doNothing()\<close>: it stores the result of calling \<open>doNothing\<close>, which is
  \<open>undefined\<close>, and not the function. Dispatching the key of such a handler throws a
  \<open>TypeError\<close>.
\<close>

theorem omitted_callback_throws:
  "callback (new_TriggerHandler l (NonFunction Undefined) as) = NonFunction Undefined \<and>
   fst (Trigger_execute ''k'' [] (run [CreateHandler ''k'' (NonFunction Undefined) []] init))
     = Inl (TypeError ''is not a function'') \<and>
   fst (Trigger_poll ''k'' [] (run [CreateHandler ''k'' (NonFunction Undefined) []] init))
     = Inl (TypeError ''is not a function'')"
  by (simp add: exec_defs)

text \<open>
  C10. Calling \<open>Trigger\<close> itself as a function is \<open>Trigger.execute\<close>: for every key, every
  argument list and every state, the two calls end in the same way (normally or with the same
  exception) and in the same state, that is with the same handler lists, the same handlers and
  the same trace of callback calls.
\<close>

theorem Trigger_is_execute:
  "Trigger t as s = Trigger_execute t as s"
  by (simp add: Trigger_def)


end
